theory Spec2Isabelle
  imports Main
begin

section \<open>Values, errors and request options\<close>

text \<open>
  The repository is one module of five asynchronous wrappers around a request
  function (\<^verbatim>\<open>src/index.ts\<close>, and a JavaScript copy of it, \<^verbatim>\<open>index.js\<close>).
  JavaScript numbers that the code tests for truthiness are integers or \<^verbatim>\<open>NaN\<close>;
  values that the code tests with \<^verbatim>\<open>!res\<close> are the primitive values and object
  references.
\<close>

datatype jsnum = NaN | Num int

fun num_truthy :: "jsnum \<Rightarrow> bool" where
  "num_truthy NaN = False"
| "num_truthy (Num n) = (n \<noteq> 0)"

datatype jsval =
    JUndefined
  | JNull
  | JBool bool
  | JNumber jsnum
  | JString string
  | JObject nat

fun truthy :: "jsval \<Rightarrow> bool" where
  "truthy JUndefined = False"
| "truthy JNull = False"
| "truthy (JBool b) = b"
| "truthy (JNumber n) = num_truthy n"
| "truthy (JString s) = (s \<noteq> [])"
| "truthy (JObject r) = True"

text \<open>
  Rejections. \<^verbatim>\<open>AbortError\<close> is the class the transport rejects with when its signal
  is aborted; \<^verbatim>\<open>Error\<close> is the plain class of \<^verbatim>\<open>new Error("timeout")\<close>.
\<close>

datatype error =
    AbortError string
  | Error string
  | TypeError string
  | FetchError string

fun instanceof_AbortError :: "error \<Rightarrow> bool" where
  "instanceof_AbortError (AbortError m) = True"
| "instanceof_AbortError e = False"

datatype agent = Agent string

text \<open>
  The options object \<^verbatim>\<open>RequestInit & { timeout?: number, proxyUrl: string }\<close>. An
  absent field is \<open>None\<close>; \<open>headers\<close> is the \<^verbatim>\<open>HeadersInit\<close> (empty when absent);
  \<open>http_method\<close> stands for the fields that are passed through to the transport.
\<close>

record request_init =
  timeout :: "jsnum option"
  headers :: "(string \<times> string) list"
  signal :: "nat option"
  agent :: "agent option"
  proxyUrl :: "string option"
  http_method :: string

definition empty_init :: request_init where
  "empty_init = \<lparr>timeout = None, headers = [], signal = None, agent = None,
     proxyUrl = None, http_method = []\<rparr>"

record response =
  status :: int
  payload :: string

section \<open>The host: timers and the transport\<close>

text \<open>
  The timer capability. \<open>timeouts\<close> holds the pending \<^verbatim>\<open>Timeout\<close> objects (handle
  and delay in milliseconds), \<open>immediates\<close> the pending \<^verbatim>\<open>Immediate\<close> objects,
  \<open>scheduled\<close> every call of \<^verbatim>\<open>setTimeout\<close> so far, \<open>sent\<close> every request
  handed to the transport, \<open>console\<close> what was logged, and \<open>invoked\<close> how often the
  operation wrapped by a retry loop has been invoked.
\<close>

datatype timer_handle = Timeout nat | Immediate nat

datatype log_entry = LogError error | LogRetry int

record runtime =
  timeouts :: "(nat \<times> nat) list"
  immediates :: "nat list"
  scheduled :: "(nat \<times> nat) list"
  next_id :: nat
  sent :: "(string \<times> request_init) list"
  console :: "log_entry list"
  invoked :: nat

definition runtime0 :: runtime where
  "runtime0 = \<lparr>timeouts = [], immediates = [], scheduled = [], next_id = 0, sent = [],
     console = [], invoked = 0\<rparr>"

text \<open>A delay below 1, above \<open>2^31 - 1\<close> or \<^verbatim>\<open>NaN\<close> is set to 1 by the host.\<close>

fun delay_ms :: "jsnum \<Rightarrow> nat" where
  "delay_ms NaN = 1"
| "delay_ms (Num n) = (if 1 \<le> n \<and> n \<le> 2147483647 then nat n else 1)"

definition setTimeout :: "jsnum \<Rightarrow> runtime \<Rightarrow> timer_handle \<times> runtime" where
  "setTimeout delay rt =
     (Timeout (next_id rt),
      rt\<lparr>timeouts := timeouts rt @ [(next_id rt, delay_ms delay)],
         scheduled := scheduled rt @ [(next_id rt, delay_ms delay)],
         next_id := next_id rt + 1\<rparr>)"

fun clearTimeout :: "timer_handle \<Rightarrow> runtime \<Rightarrow> runtime" where
  "clearTimeout (Timeout h) rt = rt\<lparr>timeouts := filter (\<lambda>(i, d). i \<noteq> h) (timeouts rt)\<rparr>"
| "clearTimeout (Immediate h) rt = rt"

text \<open>
  \<^verbatim>\<open>clearImmediate\<close> of Node (the publish workflow runs Node 18) does not look at
  the class of the object it is handed: it marks the object as destroyed and unlinks
  it from the list that holds it. Handed a pending \<^verbatim>\<open>Timeout\<close>, it takes the
  \<^verbatim>\<open>Timeout\<close> out of its timer list, so its callback is never run.
\<close>

fun clearImmediate :: "timer_handle \<Rightarrow> runtime \<Rightarrow> runtime" where
  "clearImmediate (Immediate h) rt = rt\<lparr>immediates := filter (\<lambda>i. i \<noteq> h) (immediates rt)\<rparr>"
| "clearImmediate (Timeout h) rt = rt\<lparr>timeouts := filter (\<lambda>(i, d). i \<noteq> h) (timeouts rt)\<rparr>"

text \<open>A timer that fires leaves the pending set and runs its callback.\<close>

fun fire :: "timer_handle \<Rightarrow> runtime \<Rightarrow> runtime" where
  "fire (Timeout h) rt = rt\<lparr>timeouts := filter (\<lambda>(i, d). i \<noteq> h) (timeouts rt)\<rparr>"
| "fire (Immediate h) rt = rt\<lparr>immediates := filter (\<lambda>i. i \<noteq> h) (immediates rt)\<rparr>"

text \<open>
  The transport is a collaborator (\<^verbatim>\<open>fetch\<close> of node-fetch), so it is a parameter:
  for a request it says when (milliseconds after the call) and how the request
  settles when left alone (\<open>None\<close>: never), and how the pending request settles once
  its signal is aborted (\<open>None\<close>: it ignores the signal).
\<close>

record transport_run =
  settles :: "(nat \<times> (error + response)) option"
  on_abort :: "(error + response) option"

type_synonym transport = "string \<Rightarrow> request_init \<Rightarrow> transport_run"

text \<open>
  \<^verbatim>\<open>await fetch(url, newInit)\<close> while the timer of \<open>ms\<close> milliseconds is pending: the
  request settles first, or the timer fires, its callback aborts the controller and
  the transport reacts to the aborted signal.
\<close>

definition await_fetch ::
  "transport_run \<Rightarrow> nat \<Rightarrow> timer_handle \<Rightarrow> runtime \<Rightarrow> (error + response) option \<times> runtime" where
  "await_fetch run ms timer rt =
     (case settles run of
        Some (t, r) \<Rightarrow>
          if t < ms then (Some r, rt)
          else (case on_abort run of
                  Some a \<Rightarrow> (Some a, fire timer rt)
                | None \<Rightarrow> (Some r, fire timer rt))
      | None \<Rightarrow> (on_abort run, fire timer rt))"

section \<open>fetchWithTimeout\<close>

text \<open>The expressions \<^verbatim>\<open>init?.timeout\<close> (\<open>None\<close> is \<^verbatim>\<open>undefined\<close>) and \<^verbatim>\<open>init?.timeout || 5000\<close>.\<close>

definition optional_timeout :: "request_init option \<Rightarrow> jsnum option" where
  "optional_timeout init = (case init of None \<Rightarrow> None | Some i \<Rightarrow> timeout i)"

definition timeout_or_default :: "request_init option \<Rightarrow> jsnum" where
  "timeout_or_default init =
     (case optional_timeout init of
        None \<Rightarrow> Num 5000
      | Some t \<Rightarrow> if num_truthy t then t else Num 5000)"

text \<open>The expression \<^verbatim>\<open>init ? { ...init, signal } : { signal }\<close>.\<close>

definition with_signal :: "request_init option \<Rightarrow> nat \<Rightarrow> request_init" where
  "with_signal init sig =
     (case init of
        Some i \<Rightarrow> i\<lparr>signal := Some sig\<rparr>
      | None \<Rightarrow> empty_init\<lparr>signal := Some sig\<rparr>)"

text \<open>
  \<^verbatim>\<open>src/index.ts\<close>, lines 11 to 29. The result is how the returned promise settles
  (\<open>None\<close>: never) and the host afterwards; the \<^verbatim>\<open>finally\<close> block runs on every
  settlement.
\<close>

definition fetchWithTimeout ::
  "transport \<Rightarrow> string \<Rightarrow> request_init option \<Rightarrow> runtime \<Rightarrow> (error + response) option \<times> runtime" where
  "fetchWithTimeout fetch url init rt =
     (let controller = next_id rt;
          (timer, rt1) = setTimeout (timeout_or_default init) rt;
          newInit = with_signal init controller;
          rt2 = rt1\<lparr>sent := sent rt1 @ [(url, newInit)]\<rparr>
      in case await_fetch (fetch url newInit) (delay_ms (timeout_or_default init)) timer rt2 of
           (None, rt3) \<Rightarrow> (None, rt3)
         | (Some (Inr res), rt3) \<Rightarrow> (Some (Inr res), clearTimeout timer rt3)
         | (Some (Inl err), rt3) \<Rightarrow>
             if instanceof_AbortError err
             then (Some (Inl (Error ''timeout'')), clearTimeout timer rt3)
             else (Some (Inl err), clearTimeout timer rt3))"

text \<open>
  \<^verbatim>\<open>index.js\<close>, lines 11 to 30: the same function, whose \<^verbatim>\<open>finally\<close> block
  calls \<^verbatim>\<open>clearImmediate(timeout)\<close>.
\<close>

definition fetchWithTimeout_js ::
  "transport \<Rightarrow> string \<Rightarrow> request_init option \<Rightarrow> runtime \<Rightarrow> (error + response) option \<times> runtime" where
  "fetchWithTimeout_js fetch url init rt =
     (let controller = next_id rt;
          (timer, rt1) = setTimeout (timeout_or_default init) rt;
          newInit = with_signal init controller;
          rt2 = rt1\<lparr>sent := sent rt1 @ [(url, newInit)]\<rparr>
      in case await_fetch (fetch url newInit) (delay_ms (timeout_or_default init)) timer rt2 of
           (None, rt3) \<Rightarrow> (None, rt3)
         | (Some (Inr res), rt3) \<Rightarrow> (Some (Inr res), clearImmediate timer rt3)
         | (Some (Inl err), rt3) \<Rightarrow>
             if instanceof_AbortError err
             then (Some (Inl (Error ''timeout'')), clearImmediate timer rt3)
             else (Some (Inl err), clearImmediate timer rt3))"

section \<open>fetchWithRetry\<close>

text \<open>
  The wrapped operation is a zero-argument asynchronous function of the caller: its
  \<open>k\<close>-th invocation settles with \<open>fun k\<close> (\<open>None\<close>: it never settles). It may
  reject with any value, and all that \<^verbatim>\<open>fetchWithRetry\<close> does with that value is print
  it. So a rejection value is \<open>Printable e\<close>, a value that \<^verbatim>\<open>console.log\<close> prints (an
  error \<open>e\<close>; a string, a number or a plain object behaves the same), or
  \<open>Uninspectable x\<close>, an object whose inspection throws \<open>x\<close>: \<^verbatim>\<open>console.log\<close> calls
  the method \<^verbatim>\<open>[util.inspect.custom]\<close> of the object it formats, and an exception of
  that method leaves \<^verbatim>\<open>console.log\<close>.
\<close>

datatype reason = Printable error | Uninspectable reason

fun console_log :: "reason \<Rightarrow> runtime \<Rightarrow> reason + runtime" where
  "console_log (Printable err) rt = Inr (rt\<lparr>console := console rt @ [LogError err]\<rparr>)"
| "console_log (Uninspectable x) rt = Inl x"

text \<open>The parameter \<^verbatim>\<open>interval = 5\<close> is \<open>None\<close> when the caller leaves it out.\<close>

definition default_interval :: "int option \<Rightarrow> int" where
  "default_interval interval_arg = (case interval_arg of None \<Rightarrow> 5 | Some i \<Rightarrow> i)"

text \<open>
  The \<^verbatim>\<open>catch\<close> block (\<^verbatim>\<open>src/index.ts\<close>, lines 44 to 46) up to its \<^verbatim>\<open>await\<close>: the
  rejection value is printed, then the line about the retry, and a timer of
  \<^verbatim>\<open>1000 * interval\<close> milliseconds is set. An exception of the first line leaves the
  block (\<open>Inl\<close>). The block then waits until the timer fires.
\<close>

definition catch_block :: "reason \<Rightarrow> int \<Rightarrow> runtime \<Rightarrow> reason + timer_handle \<times> runtime" where
  "catch_block err interval rt =
     (case console_log err rt of
        Inl x \<Rightarrow> Inl x
      | Inr rt1 \<Rightarrow>
          Inr (setTimeout (Num (1000 * interval))
                 (rt1\<lparr>console := console rt1 @ [LogRetry interval]\<rparr>)))"

definition catch_and_wait :: "reason \<Rightarrow> int \<Rightarrow> runtime \<Rightarrow> reason + runtime" where
  "catch_and_wait err interval rt =
     (case catch_block err interval rt of
        Inl x \<Rightarrow> Inl x
      | Inr (timer, rt1) \<Rightarrow> Inr (fire timer rt1))"

text \<open>
  \<^verbatim>\<open>src/index.ts\<close>, lines 39 to 49. The recursive call is \<^verbatim>\<open>fetchWithRetry(fun)\<close>. The
  result is \<open>None\<close> when the returned promise never settles; an exception that
  leaves the \<^verbatim>\<open>catch\<close> block rejects it.
\<close>

partial_function (option) fetchWithRetry ::
  "(nat \<Rightarrow> (reason + 'a) option) \<Rightarrow> int option \<Rightarrow> runtime \<Rightarrow> ((reason + 'a) \<times> runtime) option" where
  "fetchWithRetry fun interval_arg rt =
     (let interval = default_interval interval_arg;
          rt1 = rt\<lparr>invoked := invoked rt + 1\<rparr>
      in case fun (invoked rt) of
           None \<Rightarrow> None
         | Some (Inr res) \<Rightarrow> Some (Inr res, rt1)
         | Some (Inl err) \<Rightarrow>
             (case catch_and_wait err interval rt1 of
                Inl x \<Rightarrow> Some (Inl x, rt1)
              | Inr rt2 \<Rightarrow> fetchWithRetry fun None rt2))"

text \<open>
  What the console holds after the failures \<open>errs\<close> of a call whose parameter
  \<^verbatim>\<open>interval\<close> is \<open>i\<close>: the recursive calls have the default interval.
\<close>

fun retry_log :: "int \<Rightarrow> error list \<Rightarrow> log_entry list" where
  "retry_log i [] = []"
| "retry_log i (e # es) = [LogError e, LogRetry i] @ retry_log 5 es"

section \<open>addHeader and fetchByProxy\<close>

text \<open>The \<^verbatim>\<open>Headers\<close> class: names are case-insensitive, \<^verbatim>\<open>set\<close> replaces.\<close>

definition lower_char :: "char \<Rightarrow> char" where
  "lower_char c =
     (case map_of (zip ''ABCDEFGHIJKLMNOPQRSTUVWXYZ'' ''abcdefghijklmnopqrstuvwxyz'') c of
        Some l \<Rightarrow> l
      | None \<Rightarrow> c)"

text \<open>
  The class belongs to node-fetch. It validates what it is given
  (\<^verbatim>\<open>validateHeaderName\<close> and \<^verbatim>\<open>validateHeaderValue\<close>, which throw a \<^verbatim>\<open>TypeError\<close>):
  a name is a nonempty HTTP token, and a value has no control character other than
  the tab. The messages of the exceptions, which also name the header, are
  shortened here. A \<open>char\<close> is one of the code units 0 to 255; the code units above,
  which a JavaScript string may hold and which are refused in a value, have no
  counterpart here.
\<close>

definition http_token_chars :: string where
  "http_token_chars =
     ''abcdefghijklmnopqrstuvwxyzABCDEFGHIJKLMNOPQRSTUVWXYZ0123456789'' @
     [CHR ''^'', CHR ''_'', CHR 0x60, CHR ''-'', CHR ''!'', CHR ''#'', CHR ''$'', CHR ''%'',
      CHR ''&'', CHR 0x27, CHR ''*'', CHR ''+'', CHR ''.'', CHR ''|'', CHR ''~'']"

definition header_value_char :: "char \<Rightarrow> bool" where
  "header_value_char c = (let n = of_char c :: nat in n = 9 \<or> (32 \<le> n \<and> n \<noteq> 127))"

definition validateHeaderName :: "string \<Rightarrow> error option" where
  "validateHeaderName name =
     (if name \<noteq> [] \<and> list_all (\<lambda>c. c \<in> set http_token_chars) name then None
      else Some (TypeError ''Header name must be a valid HTTP token''))"

definition validateHeaderValue :: "string \<Rightarrow> string \<Rightarrow> error option" where
  "validateHeaderValue name val =
     (if list_all header_value_char val then None
      else Some (TypeError ''Invalid character in header content''))"

text \<open>The constructor validates every pair of its argument, in order.\<close>

fun validate_pairs :: "(string \<times> string) list \<Rightarrow> error option" where
  "validate_pairs [] = None"
| "validate_pairs ((n, v) # hs) =
     (case validateHeaderName n of
        Some e \<Rightarrow> Some e
      | None \<Rightarrow> (case validateHeaderValue n v of Some e \<Rightarrow> Some e | None \<Rightarrow> validate_pairs hs))"

definition Headers_new :: "(string \<times> string) list \<Rightarrow> error + (string \<times> string) list" where
  "Headers_new hs =
     (case validate_pairs hs of
        Some e \<Rightarrow> Inl e
      | None \<Rightarrow> Inr (map (\<lambda>(k, v). (map lower_char k, v)) hs))"

fun set_first :: "string \<Rightarrow> string \<Rightarrow> (string \<times> string) list \<Rightarrow> (string \<times> string) list" where
  "set_first k v [] = [(k, v)]"
| "set_first k v ((n, w) # hs) =
     (if n = k then (k, v) # filter (\<lambda>(m, u). m \<noteq> k) hs else (n, w) # set_first k v hs)"

definition Headers_set ::
  "string \<Rightarrow> string \<Rightarrow> (string \<times> string) list \<Rightarrow> error + (string \<times> string) list" where
  "Headers_set key val hs =
     (case validateHeaderName key of
        Some e \<Rightarrow> Inl e
      | None \<Rightarrow>
          (case validateHeaderValue key val of
             Some e \<Rightarrow> Inl e
           | None \<Rightarrow> Inr (set_first (map lower_char key) val hs)))"

definition Headers_get :: "string \<Rightarrow> (string \<times> string) list \<Rightarrow> string option" where
  "Headers_get key hs = map_of hs (map lower_char key)"

text \<open>
  \<^verbatim>\<open>src/index.ts\<close>, lines 56 to 61. An exception of \<^verbatim>\<open>new Headers\<close> or of \<^verbatim>\<open>set\<close>
  leaves the function (\<open>Inl\<close>).
\<close>

definition addHeader :: "request_init option \<Rightarrow> string \<Rightarrow> string \<Rightarrow> error + request_init" where
  "addHeader init key val =
     (case Headers_new (case init of None \<Rightarrow> [] | Some i \<Rightarrow> headers i) of
        Inl e \<Rightarrow> Inl e
      | Inr newHeaders \<Rightarrow>
          (case Headers_set key val newHeaders of
             Inl e \<Rightarrow> Inl e
           | Inr hs \<Rightarrow>
               Inr (case init of
                      Some i \<Rightarrow> i\<lparr>headers := hs\<rparr>
                    | None \<Rightarrow> empty_init\<lparr>headers := hs\<rparr>)))"

text \<open>
  \<^verbatim>\<open>src/index.ts\<close>, lines 93 to 99. The constructor \<^verbatim>\<open>HttpsProxyAgent\<close> belongs to
  the package https-proxy-agent, so it is a parameter; it receives \<^verbatim>\<open>init.proxyUrl\<close>,
  \<open>None\<close> when the options have no such field. Reading \<^verbatim>\<open>init.proxyUrl\<close> of an
  absent \<^verbatim>\<open>init\<close> throws a \<^verbatim>\<open>TypeError\<close>; an exception in the \<^verbatim>\<open>async\<close> function
  rejects the returned promise.
\<close>

definition fetchByProxy ::
  "(string option \<Rightarrow> error + agent) \<Rightarrow> transport \<Rightarrow> string \<Rightarrow> request_init option \<Rightarrow> runtime
     \<Rightarrow> (error + response) option \<times> runtime" where
  "fetchByProxy HttpsProxyAgent fetch url init rt =
     (case init of
        None \<Rightarrow> (Some (Inl (TypeError ''Cannot read properties of undefined'')), rt)
      | Some i \<Rightarrow>
          (case HttpsProxyAgent (proxyUrl i) of
             Inl err \<Rightarrow> (Some (Inl err), rt)
           | Inr a \<Rightarrow> fetchWithTimeout fetch url (Some (i\<lparr>agent := Some a\<rparr>)) rt))"

section \<open>Calls of fetchWithRetry that overlap with other work\<close>

text \<open>
  \<^verbatim>\<open>fetchWithAuth\<close> and \<^verbatim>\<open>fixedRefresh\<close> return closures whose calls overlap: a
  call runs until its next \<^verbatim>\<open>await\<close> and is resumed when the awaited promise
  settles, and no other code runs in between. So the closures are modelled by their
  segments between two \<^verbatim>\<open>await\<close>s, and an event of the host (a call, a settled
  request, a settled invocation of the operation, a timer) runs the segments it
  resumes.

  A call of \<^verbatim>\<open>fetchWithRetry\<close> is suspended in \<^verbatim>\<open>await fun()\<close>, with its parameter
  \<^verbatim>\<open>interval\<close>, or in the \<^verbatim>\<open>await\<close> of its timer, or it has rejected with the
  exception that left its \<^verbatim>\<open>catch\<close> block.
\<close>

datatype retry_phase = AwaitFun int | AwaitTimer timer_handle | Rejected reason

text \<open>The call up to \<^verbatim>\<open>await fun()\<close>: the operation is invoked.\<close>

definition fetchWithRetry_start :: "int option \<Rightarrow> runtime \<Rightarrow> retry_phase \<times> runtime" where
  "fetchWithRetry_start interval_arg rt =
     (AwaitFun (default_interval interval_arg), rt\<lparr>invoked := invoked rt + 1\<rparr>)"

text \<open>
  The variables shared by the two closures: \<open>promise\<close> is the variable of that name
  (\<open>None\<close> is \<^verbatim>\<open>undefined\<close> or \<^verbatim>\<open>null\<close>, \<open>Some r\<close> the promise of the call \<open>r\<close> of
  \<^verbatim>\<open>fetchWithRetry\<close>). The rest is bookkeeping: \<open>runs\<close> are the calls of
  \<^verbatim>\<open>fetchWithRetry\<close> that have not resolved, each suspended in one of its
  \<^verbatim>\<open>await\<close>s or rejected (phase \<open>Rejected\<close>, with the exception that left its
  \<^verbatim>\<open>catch\<close> block); \<open>started\<close> counts them all; \<open>waiting\<close> lists the callers
  suspended in \<^verbatim>\<open>await update()\<close> with the call they wait for, in the order in
  which they are resumed; \<open>thrown\<close> lists the callers whose \<^verbatim>\<open>await update()\<close> has
  thrown, with the exception (neither closure catches it, so the call of the
  closure rejects with it); \<open>callers\<close> counts the calls of the closure.
\<close>

record flight =
  promise :: "nat option"
  runs :: "(nat \<times> retry_phase) list"
  started :: nat
  waiting :: "(nat \<times> nat) list"
  thrown :: "(nat \<times> reason) list"
  callers :: nat
  host :: runtime

text \<open>
  \<^verbatim>\<open>update\<close> up to its \<^verbatim>\<open>await\<close>, called by caller \<open>c\<close>; these lines are the same
  in both closures (\<^verbatim>\<open>src/index.ts\<close>, lines 73 to 74 and 113 to 114). A promise
  that the variable holds is returned as it is: the caller waits for it, or, when
  it is rejected, the caller's \<^verbatim>\<open>await update()\<close> throws.
\<close>

definition update :: "nat \<Rightarrow> 'a flight_scheme \<Rightarrow> 'a flight_scheme" where
  "update c s =
     (case promise s of
        Some r \<Rightarrow>
          (case map_of (runs s) r of
             Some (Rejected x) \<Rightarrow> s\<lparr>thrown := thrown s @ [(c, x)]\<rparr>
           | _ \<Rightarrow> s\<lparr>waiting := waiting s @ [(c, r)]\<rparr>)
      | None \<Rightarrow>
          (let r = started s;
               (phase, rt) = fetchWithRetry_start None (host s)
           in s\<lparr>promise := Some r, runs := runs s @ [(r, phase)], started := r + 1,
                waiting := waiting s @ [(c, r)], host := rt\<rparr>))"

text \<open>
  What the host does to a call \<open>r\<close> of \<^verbatim>\<open>fetchWithRetry\<close>: the pending invocation of
  the operation rejects or resolves, or the timer of the \<^verbatim>\<open>catch\<close> block fires, and
  the recursive call \<^verbatim>\<open>fetchWithRetry(fun)\<close> invokes the operation again.
\<close>

datatype 'v run_event = FunRejects nat reason | FunResolves nat 'v | TimerFires nat

definition set_phase :: "nat \<Rightarrow> retry_phase \<Rightarrow> (nat \<times> retry_phase) list \<Rightarrow> (nat \<times> retry_phase) list" where
  "set_phase r phase rs = map (\<lambda>(r', p). if r' = r then (r', phase) else (r', p)) rs"

text \<open>
  The call \<open>r\<close> of \<^verbatim>\<open>fetchWithRetry\<close> rejects with \<open>x\<close>: \<^verbatim>\<open>await promise\<close> throws in
  \<^verbatim>\<open>update\<close> (lines 75 and 115), so the lines after it are not run and the variable
  \<open>promise\<close> keeps the rejected promise; \<^verbatim>\<open>await update()\<close> throws in every caller
  that waited for the call.
\<close>

definition reject_run :: "nat \<Rightarrow> reason \<Rightarrow> 'a flight_scheme \<Rightarrow> 'a flight_scheme" where
  "reject_run r x s =
     (let woken = map fst (filter (\<lambda>(c, r'). r' = r) (waiting s))
      in s\<lparr>runs := set_phase r (Rejected x) (runs s),
            waiting := filter (\<lambda>(c, r'). r' \<noteq> r) (waiting s),
            thrown := thrown s @ map (\<lambda>c. (c, x)) woken\<rparr>)"

fun retry_step :: "'v run_event \<Rightarrow> 'a flight_scheme \<Rightarrow> 'a flight_scheme" where
  "retry_step (FunRejects r err) s =
     (case map_of (runs s) r of
        Some (AwaitFun interval) \<Rightarrow>
          (case catch_block err interval (host s) of
             Inr (timer, rt) \<Rightarrow> s\<lparr>runs := set_phase r (AwaitTimer timer) (runs s), host := rt\<rparr>
           | Inl x \<Rightarrow> reject_run r x s)
      | _ \<Rightarrow> s)"
| "retry_step (TimerFires r) s =
     (case map_of (runs s) r of
        Some (AwaitTimer timer) \<Rightarrow>
          (let (phase, rt) = fetchWithRetry_start None (fire timer (host s))
           in s\<lparr>runs := set_phase r phase (runs s), host := rt\<rparr>)
      | _ \<Rightarrow> s)"
| "retry_step (FunResolves r v) s =
     (case map_of (runs s) r of
        Some (AwaitFun interval) \<Rightarrow> s\<lparr>runs := filter (\<lambda>(r', p). r' \<noteq> r) (runs s)\<rparr>
      | _ \<Rightarrow> s)"

text \<open>The call of \<^verbatim>\<open>fetchWithRetry\<close> that the event resolves, and its value.\<close>

fun resolved :: "'v run_event \<Rightarrow> 'a flight_scheme \<Rightarrow> (nat \<times> 'v) option" where
  "resolved (FunResolves r v) s =
     (case map_of (runs s) r of Some (AwaitFun interval) \<Rightarrow> Some (r, v) | _ \<Rightarrow> None)"
| "resolved ev s = None"

text \<open>
  The operation fails once for every element of \<open>errs\<close>, each time with an error
  that is printed: the invocation rejects, the timer of the \<^verbatim>\<open>catch\<close> block fires
  and the operation is invoked again.
\<close>

definition retry_rounds :: "nat \<Rightarrow> error list \<Rightarrow> 'v run_event list" where
  "retry_rounds r errs = concat (map (\<lambda>e. [FunRejects r (Printable e), TimerFires r]) errs)"

text \<open>The events that end a call of \<^verbatim>\<open>fetchWithRetry\<close>: it resolves, or it rejects.\<close>

fun ends_run :: "'v run_event \<Rightarrow> bool" where
  "ends_run (FunResolves r v) = True"
| "ends_run (FunRejects r (Uninspectable x)) = True"
| "ends_run (FunRejects r (Printable e)) = False"
| "ends_run (TimerFires r) = False"

text \<open>
  Single flight: when \<open>promise\<close> is empty there is no call of \<^verbatim>\<open>fetchWithRetry\<close> that
  has not resolved; otherwise there is one, the one whose promise it holds, and
  every caller suspended in \<^verbatim>\<open>await update()\<close> waits for that one.
\<close>

definition single_flight :: "'a flight_scheme \<Rightarrow> bool" where
  "single_flight s =
     (case promise s of
        None \<Rightarrow> runs s = [] \<and> waiting s = []
      | Some r \<Rightarrow> map fst (runs s) = [r] \<and> r < started s \<and> list_all (\<lambda>w. snd w = r) (waiting s))"

text \<open>
  Relative to a state \<open>s0\<close> in which no refresh is pending: nothing has been started
  since, or one call of \<^verbatim>\<open>fetchWithRetry\<close> has been started since, is pending and is
  awaited by every caller suspended in \<^verbatim>\<open>await update()\<close>; it has invoked the
  operation once, and once more for every timer that it has set and that has fired.
\<close>

definition unchanged :: "'a flight_scheme \<Rightarrow> 'a flight_scheme \<Rightarrow> bool" where
  "unchanged s0 s \<longleftrightarrow>
     promise s = None \<and> runs s = [] \<and> waiting s = [] \<and> started s = started s0
     \<and> host s = host s0"

fun attempts_made :: "retry_phase \<Rightarrow> runtime \<Rightarrow> runtime \<Rightarrow> bool" where
  "attempts_made (AwaitFun i) rt0 rt \<longleftrightarrow>
     i = 5 \<and> invoked rt + length (scheduled rt0) = invoked rt0 + 1 + length (scheduled rt)"
| "attempts_made (AwaitTimer t) rt0 rt \<longleftrightarrow>
     invoked rt + length (scheduled rt0) = invoked rt0 + length (scheduled rt)"
| "attempts_made (Rejected x) rt0 rt \<longleftrightarrow> False"

definition refreshing :: "'a flight_scheme \<Rightarrow> 'a flight_scheme \<Rightarrow> bool" where
  "refreshing s0 s \<longleftrightarrow>
     promise s = Some (started s0) \<and> started s = started s0 + 1
     \<and> list_all (\<lambda>w. snd w = started s0) (waiting s)
     \<and> (\<exists>phase. runs s = [(started s0, phase)] \<and> attempts_made phase (host s0) (host s))"

section \<open>fixedRefresh\<close>

text \<open>
  \<^verbatim>\<open>src/index.ts\<close>, lines 108 to 125. The closure has the variables \<open>res\<close>,
  \<open>promise\<close> and \<open>lastUpdateTimestamp\<close>; \<open>returned\<close> lists the calls of the accessor
  that have returned, with their values (the calls that have rejected are in
  \<open>thrown\<close>).
\<close>

record cache_state = flight +
  res :: jsval
  lastUpdateTimestamp :: int
  returned :: "(nat \<times> jsval) list"

text \<open>The parameter \<^verbatim>\<open>interval = 60 * 5\<close>, in seconds.\<close>

definition fixedRefresh_interval :: "int option \<Rightarrow> int" where
  "fixedRefresh_interval interval_arg = (case interval_arg of None \<Rightarrow> 60 * 5 | Some i \<Rightarrow> i)"

text \<open>The closure when \<^verbatim>\<open>fixedRefresh\<close> returns it.\<close>

definition fixedRefresh :: cache_state where
  "fixedRefresh =
     \<lparr>promise = None, runs = [], started = 0, waiting = [], thrown = [], callers = 0,
      host = runtime0, res = JUndefined, lastUpdateTimestamp = 0, returned = []\<rparr>"

text \<open>The accessor \<^verbatim>\<open>_\<close> up to its \<^verbatim>\<open>await\<close>, called when \<^verbatim>\<open>Date.now()\<close> is \<open>now\<close>.\<close>

definition accessor :: "int \<Rightarrow> int \<Rightarrow> cache_state \<Rightarrow> cache_state" where
  "accessor interval now s =
     (let c = callers s;
          s1 = s\<lparr>callers := c + 1\<rparr>
      in if now - lastUpdateTimestamp s1 \<ge> interval * 1000 \<or> \<not> truthy (res s1)
         then update c s1
         else s1\<lparr>returned := returned s1 @ [(c, res s1)]\<rparr>)"

text \<open>
  The rest of \<^verbatim>\<open>update\<close> once the call \<open>r\<close> of \<^verbatim>\<open>fetchWithRetry\<close> has resolved with
  \<open>v\<close> (lines 115 to 117), and then the callers that waited for it: each returns
  \<open>res\<close>.
\<close>

definition fixedRefresh_resume :: "nat \<Rightarrow> jsval \<Rightarrow> int \<Rightarrow> cache_state \<Rightarrow> cache_state" where
  "fixedRefresh_resume r v now s =
     (let s1 = s\<lparr>res := v, lastUpdateTimestamp := now, promise := None\<rparr>;
          woken = map fst (filter (\<lambda>(c, r'). r' = r) (waiting s1))
      in s1\<lparr>waiting := filter (\<lambda>(c, r'). r' \<noteq> r) (waiting s1),
            returned := returned s1 @ map (\<lambda>c. (c, res s1)) woken\<rparr>)"

datatype cache_event = Access int | Refresh "jsval run_event" int

fun fixedRefresh_step :: "int \<Rightarrow> cache_state \<Rightarrow> cache_event \<Rightarrow> cache_state" where
  "fixedRefresh_step interval s (Access now) = accessor interval now s"
| "fixedRefresh_step interval s (Refresh ev now) =
     (case resolved ev s of
        Some (r, v) \<Rightarrow> fixedRefresh_resume r v now (retry_step ev s)
      | None \<Rightarrow> retry_step ev s)"

definition fixedRefresh_run :: "int \<Rightarrow> cache_event list \<Rightarrow> cache_state \<Rightarrow> cache_state" where
  "fixedRefresh_run interval evs s = foldl (fixedRefresh_step interval) s evs"

section \<open>fetchWithAuth\<close>

text \<open>
  \<^verbatim>\<open>src/index.ts\<close>, lines 69 to 86. The closure has the variables \<open>Authorization\<close>
  and \<open>promise\<close>. A call \<open>c\<close> of the returned function keeps its arguments in
  \<open>args\<close>; \<open>requests\<close> lists the calls of \<^verbatim>\<open>fetchWithTimeout\<close> made so far, with
  the caller; \<open>first_attempt\<close> and \<open>second_attempt\<close> are the callers suspended in the
  first and in the second of them; \<open>settled\<close> lists the calls that have settled
  with the outcome of a request or with an exception of \<^verbatim>\<open>addHeader\<close> (the calls
  that a rejected refresh has rejected are in \<open>thrown\<close>).
\<close>

record auth_state = flight +
  Authorization :: string
  args :: "nat \<Rightarrow> string \<times> request_init option"
  requests :: "(nat \<times> string \<times> request_init) list"
  first_attempt :: "nat list"
  second_attempt :: "nat list"
  settled :: "(nat \<times> (error + response)) list"

text \<open>The closure when \<^verbatim>\<open>fetchWithAuth\<close> returns it.\<close>

definition fetchWithAuth :: auth_state where
  "fetchWithAuth =
     \<lparr>promise = None, runs = [], started = 0, waiting = [], thrown = [], callers = 0,
      host = runtime0, Authorization = [], args = (\<lambda>c. ([], None)), requests = [],
      first_attempt = [], second_attempt = [], settled = []\<rparr>"

text \<open>
  The request that caller \<open>c\<close> hands to \<^verbatim>\<open>fetchWithTimeout\<close> (lines 79 and 82), or
  the exception of \<^verbatim>\<open>addHeader\<close>.
\<close>

definition authorized :: "nat \<Rightarrow> auth_state \<Rightarrow> error + nat \<times> string \<times> request_init" where
  "authorized c s =
     (case addHeader (snd (args s c)) ''Authorization'' (Authorization s) of
        Inl err \<Rightarrow> Inl err
      | Inr init \<Rightarrow> Inr (c, fst (args s c), init))"

text \<open>
  The function \<^verbatim>\<open>_\<close> up to its first \<^verbatim>\<open>await\<close>: the first request is made, or the
  exception of \<^verbatim>\<open>addHeader\<close> rejects the call.
\<close>

definition auth_call :: "string \<Rightarrow> request_init option \<Rightarrow> auth_state \<Rightarrow> auth_state" where
  "auth_call url init s =
     (let c = callers s;
          s1 = s\<lparr>callers := c + 1, args := (args s)(c := (url, init))\<rparr>
      in case authorized c s1 of
           Inl err \<Rightarrow> s1\<lparr>settled := settled s1 @ [(c, Inl err)]\<rparr>
         | Inr q \<Rightarrow> s1\<lparr>requests := requests s1 @ [q], first_attempt := first_attempt s1 @ [c]\<rparr>)"

text \<open>
  The pending call of \<^verbatim>\<open>fetchWithTimeout\<close> of caller \<open>c\<close> settles with \<open>out\<close>: after
  the first attempt the status is tested (line 80); the second attempt is returned
  as it is (line 82).
\<close>

definition auth_settle :: "nat \<Rightarrow> error + response \<Rightarrow> auth_state \<Rightarrow> auth_state" where
  "auth_settle c out s =
     (if c \<in> set (first_attempt s) then
        (let s1 = s\<lparr>first_attempt := removeAll c (first_attempt s)\<rparr>
         in case out of
              Inl err \<Rightarrow> s1\<lparr>settled := settled s1 @ [(c, Inl err)]\<rparr>
            | Inr r \<Rightarrow>
                if status r \<in> set [401, 403] then update c s1
                else s1\<lparr>settled := settled s1 @ [(c, Inr r)]\<rparr>)
      else if c \<in> set (second_attempt s) then
        s\<lparr>second_attempt := removeAll c (second_attempt s), settled := settled s @ [(c, out)]\<rparr>
      else s)"

text \<open>
  Line 82 for a caller \<open>c\<close> that is resumed after \<^verbatim>\<open>await update()\<close>: the second
  request is made, or the exception of \<^verbatim>\<open>addHeader\<close> rejects the call.
\<close>

definition second_request :: "auth_state \<Rightarrow> nat \<Rightarrow> auth_state" where
  "second_request s c =
     (case authorized c s of
        Inl err \<Rightarrow> s\<lparr>settled := settled s @ [(c, Inl err)]\<rparr>
      | Inr q \<Rightarrow> s\<lparr>requests := requests s @ [q], second_attempt := second_attempt s @ [c]\<rparr>)"

text \<open>
  The rest of \<^verbatim>\<open>update\<close> once the call \<open>r\<close> of \<^verbatim>\<open>fetchWithRetry\<close> has resolved with
  \<open>v\<close> (lines 75 to 76), and then the callers that waited for it, one after the
  other.
\<close>

definition fetchWithAuth_resume :: "nat \<Rightarrow> string \<Rightarrow> auth_state \<Rightarrow> auth_state" where
  "fetchWithAuth_resume r v s =
     (let s1 = s\<lparr>Authorization := v, promise := None\<rparr>;
          woken = map fst (filter (\<lambda>(c, r'). r' = r) (waiting s1))
      in foldl second_request (s1\<lparr>waiting := filter (\<lambda>(c, r'). r' \<noteq> r) (waiting s1)\<rparr>) woken)"

datatype auth_event =
    Call string "request_init option"
  | Settles nat "error + response"
  | Token "string run_event"

fun fetchWithAuth_step :: "auth_state \<Rightarrow> auth_event \<Rightarrow> auth_state" where
  "fetchWithAuth_step s (Call url init) = auth_call url init s"
| "fetchWithAuth_step s (Settles c out) = auth_settle c out s"
| "fetchWithAuth_step s (Token ev) =
     (case resolved ev s of
        Some (r, v) \<Rightarrow> fetchWithAuth_resume r v (retry_step ev s)
      | None \<Rightarrow> retry_step ev s)"

definition fetchWithAuth_run :: "auth_event list \<Rightarrow> auth_state \<Rightarrow> auth_state" where
  "fetchWithAuth_run evs s = foldl fetchWithAuth_step s evs"

text \<open>The events that end a refresh.\<close>

fun ends_refresh :: "auth_event \<Rightarrow> bool" where
  "ends_refresh (Token ev) = ends_run ev"
| "ends_refresh (Call url init) = False"
| "ends_refresh (Settles c out) = False"

text \<open>
  The number of calls of \<^verbatim>\<open>fetchWithTimeout\<close> that caller \<open>c\<close> has made, and the
  bookkeeping that bounds it: a caller that waits for its first response or for a
  refresh has made one request.
\<close>

definition attempts :: "nat \<Rightarrow> auth_state \<Rightarrow> nat" where
  "attempts c s = length (filter (\<lambda>q. fst q = c) (requests s))"

definition attempts_inv :: "auth_state \<Rightarrow> bool" where
  "attempts_inv s \<longleftrightarrow>
     (\<forall>c. attempts c s \<le> 2)
     \<and> (\<forall>c \<in> fst ` set (waiting s). attempts c s \<le> 1 \<and> c < callers s)
     \<and> distinct (map fst (waiting s))
     \<and> (\<forall>c. callers s \<le> c \<longrightarrow> attempts c s = 0)
     \<and> (\<forall>c \<in> set (first_attempt s).
           attempts c s \<le> 1 \<and> c < callers s \<and> c \<notin> fst ` set (waiting s))"

section \<open>Properties of fetchWithTimeout and fetchByProxy\<close>

lemma scheduled_fire [simp]: "scheduled (fire h rt) = scheduled rt"
  by (cases h) simp_all

lemma scheduled_clearTimeout [simp]: "scheduled (clearTimeout h rt) = scheduled rt"
  by (cases h) simp_all

lemma scheduled_clearImmediate [simp]: "scheduled (clearImmediate h rt) = scheduled rt"
  by (cases h) simp_all

lemma scheduled_fetchWithTimeout:
  "scheduled (snd (fetchWithTimeout fetch url init rt)) =
     scheduled rt @ [(next_id rt, delay_ms (timeout_or_default init))]"
  by (simp add: fetchWithTimeout_def setTimeout_def await_fetch_def Let_def
      split: option.splits sum.splits prod.splits)

lemma scheduled_fetchWithTimeout_js:
  "scheduled (snd (fetchWithTimeout_js fetch url init rt)) =
     scheduled rt @ [(next_id rt, delay_ms (timeout_or_default init))]"
  by (simp add: fetchWithTimeout_js_def setTimeout_def await_fetch_def Let_def
      split: option.splits sum.splits prod.splits)

lemma optional_timeout_addHeader:
  "addHeader init key val = Inr i \<Longrightarrow> optional_timeout (Some i) = optional_timeout init"
  by (auto simp: optional_timeout_def addHeader_def empty_init_def
      split: option.splits sum.splits)

lemma map_of_set_first: "map_of (set_first k v hs) k = Some v"
  by (induction hs) auto

lemma Headers_get_addHeader:
  "addHeader init key val = Inr i \<Longrightarrow> Headers_get key (headers i) = Some val"
  by (auto simp: Headers_get_def addHeader_def Headers_set_def map_of_set_first
      split: option.splits sum.splits)

text \<open>
  \<^verbatim>\<open>addHeader\<close> returns exactly when the headers of the options, the name and the
  value are legal; otherwise it throws the first exception of the validation.
\<close>

lemma addHeader_returns:
  "(\<exists>i. addHeader init key val = Inr i) \<longleftrightarrow>
     validate_pairs (case init of None \<Rightarrow> [] | Some i \<Rightarrow> headers i) = None
     \<and> validateHeaderName key = None \<and> validateHeaderValue key val = None"
  by (auto simp: addHeader_def Headers_new_def Headers_set_def split: option.splits sum.splits)

lemma addHeader_illegal_value:
  "validate_pairs (case init of None \<Rightarrow> [] | Some i \<Rightarrow> headers i) = None \<Longrightarrow>
   validateHeaderName key = None \<Longrightarrow> validateHeaderValue key val = Some err \<Longrightarrow>
   addHeader init key val = Inl err"
  by (simp add: addHeader_def Headers_new_def Headers_set_def)

lemma validate_Authorization: "validateHeaderName ''Authorization'' = None"
  by (simp add: validateHeaderName_def http_token_chars_def)

text \<open>
  Claim C10. A timeout option that is absent or falsy (\<^verbatim>\<open>0\<close>, \<^verbatim>\<open>NaN\<close>) selects the
  default: the timer of \<^verbatim>\<open>fetchWithTimeout\<close> is set to 5000 milliseconds, in both
  copies of the function, and the wrappers built on it hand the option on unchanged
  (\<^verbatim>\<open>addHeader\<close>, whenever it returns options, for \<^verbatim>\<open>fetchWithAuth\<close>, and
  \<^verbatim>\<open>fetchByProxy\<close>).
\<close>

theorem falsy_timeout_selects_default:
  assumes "optional_timeout init = None \<or> (\<exists>t. optional_timeout init = Some t \<and> \<not> num_truthy t)"
  shows "timeout_or_default init = Num 5000
     \<and> scheduled (snd (fetchWithTimeout fetch url init rt)) = scheduled rt @ [(next_id rt, 5000)]
     \<and> scheduled (snd (fetchWithTimeout_js fetch url init rt)) = scheduled rt @ [(next_id rt, 5000)]
     \<and> (\<forall>i. addHeader init key val = Inr i \<longrightarrow> timeout_or_default (Some i) = Num 5000)
     \<and> (\<forall>i a. init = Some i \<and> HttpsProxyAgent (proxyUrl i) = Inr a \<longrightarrow>
          scheduled (snd (fetchByProxy HttpsProxyAgent fetch url init rt)) =
            scheduled rt @ [(next_id rt, 5000)])"
proof -
  from assms have d: "timeout_or_default init = Num 5000"
    by (auto simp: timeout_or_default_def)
  have h: "timeout_or_default (Some i) = Num 5000" if "addHeader init key val = Inr i" for i
    using assms optional_timeout_addHeader[OF that] by (auto simp: timeout_or_default_def)
  have p: "scheduled (snd (fetchByProxy HttpsProxyAgent fetch url init rt)) =
      scheduled rt @ [(next_id rt, 5000)]"
    if "init = Some i" "HttpsProxyAgent (proxyUrl i) = Inr a" for i a
  proof -
    have "optional_timeout (Some (i\<lparr>agent := Some a\<rparr>)) = optional_timeout init"
      using that by (simp add: optional_timeout_def)
    then have "timeout_or_default (Some (i\<lparr>agent := Some a\<rparr>)) = Num 5000"
      using d by (simp add: timeout_or_default_def)
    then show ?thesis using that
      by (simp add: fetchByProxy_def scheduled_fetchWithTimeout)
  qed
  show ?thesis using d h p
    by (simp add: scheduled_fetchWithTimeout scheduled_fetchWithTimeout_js)
qed

theorem falsy_timeout_selects_default_witness:
  "optional_timeout (Some (empty_init\<lparr>timeout := Some (Num 0)\<rparr>)) = Some (Num 0)
   \<and> \<not> num_truthy (Num 0)
   \<and> timeout_or_default (Some (empty_init\<lparr>timeout := Some (Num 0)\<rparr>)) = Num 5000
   \<and> scheduled (snd (fetchWithTimeout (\<lambda>u i. \<lparr>settles = None, on_abort = None\<rparr>) ''http://host/''
        (Some (empty_init\<lparr>timeout := Some (Num 0)\<rparr>)) runtime0)) = [(0, 5000)]"
proof -
  have h: "optional_timeout (Some (empty_init\<lparr>timeout := Some (Num 0)\<rparr>)) = None
     \<or> (\<exists>t. optional_timeout (Some (empty_init\<lparr>timeout := Some (Num 0)\<rparr>)) = Some t
            \<and> \<not> num_truthy t)"
    by (simp add: optional_timeout_def)
  from falsy_timeout_selects_default
    [OF h, of "\<lambda>u i. \<lparr>settles = None, on_abort = None\<rparr>" "''http://host/''" runtime0]
  show ?thesis by (simp add: optional_timeout_def runtime0_def)
qed





text \<open>
  Claim C8. A call of \<^verbatim>\<open>fetchByProxy\<close> without options rejects with a \<^verbatim>\<open>TypeError\<close>;
  a call whose options have no \<^verbatim>\<open>proxyUrl\<close> rejects with the exception of the
  agent constructor, which refuses an absent URL. In both cases no timer is set and
  no request is handed to the transport.
\<close>

theorem fetchByProxy_missing_proxyUrl:
  "fetchByProxy HttpsProxyAgent fetch url None rt =
     (Some (Inl (TypeError ''Cannot read properties of undefined'')), rt)
   \<and> (proxyUrl i = None \<and> HttpsProxyAgent None = Inl err \<longrightarrow>
        fetchByProxy HttpsProxyAgent fetch url (Some i) rt = (Some (Inl err), rt))"
  by (simp add: fetchByProxy_def)

theorem fetchByProxy_missing_proxyUrl_witness:
  "proxyUrl empty_init = None
   \<and> (case None of None \<Rightarrow> Inl (TypeError ''Invalid URL'') | Some u \<Rightarrow> Inr (Agent u))
       = Inl (TypeError ''Invalid URL'')
   \<and> fetchByProxy (\<lambda>p. case p of None \<Rightarrow> Inl (TypeError ''Invalid URL'') | Some u \<Rightarrow> Inr (Agent u))
       (\<lambda>u i. \<lparr>settles = Some (10, Inr \<lparr>status = 200, payload = ''ok''\<rparr>), on_abort = None\<rparr>)
       ''http://host/'' (Some empty_init) runtime0
     = (Some (Inl (TypeError ''Invalid URL'')), runtime0)"
  using fetchByProxy_missing_proxyUrl
    [of "\<lambda>p. case p of None \<Rightarrow> Inl (TypeError ''Invalid URL'') | Some u \<Rightarrow> Inr (Agent u)"
        "\<lambda>u i. \<lparr>settles = Some (10, Inr \<lparr>status = 200, payload = ''ok''\<rparr>), on_abort = None\<rparr>"
        "''http://host/''" runtime0 empty_init "TypeError ''Invalid URL''"]
  by (simp add: empty_init_def)

section \<open>Properties of fetchWithRetry\<close>

lemma catch_block_Printable:
  "catch_block (Printable e) n rt =
     Inr (setTimeout (Num (1000 * n)) (rt\<lparr>console := console rt @ [LogError e, LogRetry n]\<rparr>))"
  by (simp add: catch_block_def)

lemma catch_block_Uninspectable [simp]: "catch_block (Uninspectable x) n rt = Inl x"
  by (simp add: catch_block_def)

lemma catch_and_wait_Uninspectable [simp]: "catch_and_wait (Uninspectable x) n rt = Inl x"
  by (simp add: catch_and_wait_def)

lemma catch_and_wait_Printable:
  "catch_and_wait (Printable e) n rt = Inr (projr (catch_and_wait (Printable e) n rt))"
  by (simp add: catch_and_wait_def catch_block_Printable setTimeout_def)

lemma invoked_catch_and_wait [simp]:
  "invoked (projr (catch_and_wait (Printable e) n rt)) = invoked rt"
  by (simp add: catch_and_wait_def catch_block_Printable setTimeout_def)

lemma console_catch_and_wait [simp]:
  "console (projr (catch_and_wait (Printable e) n rt)) = console rt @ [LogError e, LogRetry n]"
  by (simp add: catch_and_wait_def catch_block_Printable setTimeout_def)

lemma scheduled_catch_and_wait [simp]:
  "scheduled (projr (catch_and_wait (Printable e) n rt)) =
     scheduled rt @ [(next_id rt, delay_ms (Num (1000 * n)))]"
  by (simp add: catch_and_wait_def catch_block_Printable setTimeout_def)

lemma fetchWithRetry_rejected:
  assumes "fun (invoked rt) = Some (Inl (Printable e))"
  shows "fetchWithRetry fun i rt =
     fetchWithRetry fun None
       (projr (catch_and_wait (Printable e) (default_interval i) (rt\<lparr>invoked := invoked rt + 1\<rparr>)))"
proof -
  obtain rt2 where w:
    "catch_and_wait (Printable e) (default_interval i) (rt\<lparr>invoked := invoked rt + 1\<rparr>) = Inr rt2"
    using catch_and_wait_Printable by blast
  show ?thesis
    apply (subst fetchWithRetry.simps)
    using w assms apply (simp add: Let_def)
    done
qed

lemma fetchWithRetry_thrown:
  "fun (invoked rt) = Some (Inl (Uninspectable x)) \<Longrightarrow>
   fetchWithRetry fun i rt = Some (Inl x, rt\<lparr>invoked := invoked rt + 1\<rparr>)"
  by (subst fetchWithRetry.simps) (simp add: Let_def)

lemma fetchWithRetry_resolved:
  "fun (invoked rt) = Some (Inr v) \<Longrightarrow>
   fetchWithRetry fun i rt = Some (Inr v, rt\<lparr>invoked := invoked rt + 1\<rparr>)"
  by (subst fetchWithRetry.simps) (simp add: Let_def)

lemma fetchWithRetry_pending:
  "fun (invoked rt) = None \<Longrightarrow> fetchWithRetry fun i rt = None"
  by (subst fetchWithRetry.simps) (simp add: Let_def)

lemmas fetchWithRetry_induct = fetchWithRetry.raw_induct [rotated 1, consumes 1]

text \<open>
  What a settled call has done: its last invocation of the operation succeeded with
  the value it resolves with, or rejected with a value that could not be printed,
  whose exception it rejects with; every invocation before that one failed with an
  error that was printed.
\<close>

lemma fetchWithRetry_settled:
  "fetchWithRetry fun i rt = Some y \<Longrightarrow>
   invoked rt < invoked (snd y)
   \<and> (case fst y of
        Inr v \<Rightarrow> fun (invoked (snd y) - 1) = Some (Inr v)
      | Inl x \<Rightarrow> fun (invoked (snd y) - 1) = Some (Inl (Uninspectable x)))
   \<and> set (console rt) \<subseteq> set (console (snd y))
   \<and> (\<forall>k. invoked rt \<le> k \<and> k < invoked (snd y) - 1 \<longrightarrow>
         (\<exists>e. fun k = Some (Inl (Printable e)) \<and> LogError e \<in> set (console (snd y))))"
proof (induction rule: fetchWithRetry_induct)
  case (1 f op i rt y)
  show ?case
  proof (cases "op (invoked rt)")
    case None
    with 1(2) show ?thesis by simp
  next
    case (Some r)
    show ?thesis
    proof (cases r)
      case (Inr v)
      with Some 1(2) show ?thesis by (auto simp: Let_def)
    next
      case (Inl z)
      show ?thesis
      proof (cases z)
        case (Uninspectable x)
        with Inl Some 1(2) show ?thesis by (auto simp: Let_def)
      next
        case (Printable e)
        define rt3 where
          "rt3 = projr (catch_and_wait (Printable e) (default_interval i) (rt\<lparr>invoked := invoked rt + 1\<rparr>))"
        have w: "catch_and_wait (Printable e) (default_interval i) (rt\<lparr>invoked := invoked rt + 1\<rparr>) = Inr rt3"
          unfolding rt3_def by (rule catch_and_wait_Printable)
        from w Printable Inl Some 1(2) have rec: "f op None rt3 = Some y"
          by (simp add: Let_def)
        have inv3: "invoked rt3 = invoked rt + 1"
          by (simp add: rt3_def)
        have con3: "console rt3 = console rt @ [LogError e, LogRetry (default_interval i)]"
          by (simp add: rt3_def)
        from 1(1)[OF rec] have v:
          "invoked rt3 < invoked (snd y)"
          "case fst y of
             Inr v \<Rightarrow> op (invoked (snd y) - 1) = Some (Inr v)
           | Inl x \<Rightarrow> op (invoked (snd y) - 1) = Some (Inl (Uninspectable x))"
          "set (console rt3) \<subseteq> set (console (snd y))"
          "\<forall>k. invoked rt3 \<le> k \<and> k < invoked (snd y) - 1 \<longrightarrow>
             (\<exists>e. op k = Some (Inl (Printable e)) \<and> LogError e \<in> set (console (snd y)))"
          by blast+
        have "\<exists>e. op k = Some (Inl (Printable e)) \<and> LogError e \<in> set (console (snd y))"
          if "invoked rt \<le> k \<and> k < invoked (snd y) - 1" for k
        proof (cases "k = invoked rt")
          case True
          with Some Inl Printable v(3) con3 show ?thesis by auto
        next
          case False
          with that inv3 have "invoked rt3 \<le> k \<and> k < invoked (snd y) - 1" by simp
          with v(4) show ?thesis by blast
        qed
        with v inv3 con3 show ?thesis by auto
      qed
    qed
  qed
qed

text \<open>
  An operation whose rejections are all printed: the promise does not reject, and
  it never settles when no invocation succeeds.
\<close>

lemma fetchWithRetry_printed_never_rejects:
  assumes "\<forall>k x. fun k \<noteq> Some (Inl (Uninspectable x))"
  shows "fetchWithRetry fun i rt \<noteq> Some (Inl x, rt')"
    and "(\<forall>k v. invoked rt \<le> k \<longrightarrow> fun k \<noteq> Some (Inr v)) \<Longrightarrow> fetchWithRetry fun i rt = None"
proof -
  show "fetchWithRetry fun i rt \<noteq> Some (Inl x, rt')"
    using fetchWithRetry_settled[of "fun" i rt "(Inl x, rt')"] assms by auto
next
  assume n: "\<forall>k v. invoked rt \<le> k \<longrightarrow> fun k \<noteq> Some (Inr v)"
  show "fetchWithRetry fun i rt = None"
  proof (cases "fetchWithRetry fun i rt")
    case None
    then show ?thesis .
  next
    case (Some y)
    from fetchWithRetry_settled[OF Some] have l: "invoked rt < invoked (snd y)"
      and c: "case fst y of
             Inr v \<Rightarrow> fun (invoked (snd y) - 1) = Some (Inr v)
           | Inl x \<Rightarrow> fun (invoked (snd y) - 1) = Some (Inl (Uninspectable x))"
      by blast+
    from l have "invoked rt \<le> invoked (snd y) - 1" by simp
    with n assms c show ?thesis by (cases "fst y") auto
  qed
qed

text \<open>
  An operation that fails with the errors \<open>errs\<close>, which are printed, and then
  succeeds: the call resolves with the value of the first success; every failure
  has been logged and followed by a timer and another invocation. The first timer
  is of \<^verbatim>\<open>1000 * interval\<close> milliseconds and every later one of 5000 milliseconds.
\<close>

lemma fetchWithRetry_fails_then_succeeds:
  "\<forall>k < length errs. fun (invoked rt + k) = Some (Inl (Printable (errs ! k))) \<Longrightarrow>
   fun (invoked rt + length errs) = Some (Inr v) \<Longrightarrow>
   \<exists>rt'. fetchWithRetry fun i rt = Some (Inr v, rt') \<and> invoked rt' = invoked rt + length errs + 1
     \<and> console rt' = console rt @ retry_log (default_interval i) errs
     \<and> map snd (scheduled rt') = map snd (scheduled rt) @
        (if errs = [] then []
         else delay_ms (Num (1000 * default_interval i)) # replicate (length errs - 1) 5000)"
proof (induction errs arbitrary: rt i)
  case Nil
  then show ?case by (simp add: fetchWithRetry_resolved)
next
  case (Cons e errs)
  from Cons.prems(1) have e: "fun (invoked rt) = Some (Inl (Printable e))" by fastforce
  let ?rt = "projr (catch_and_wait (Printable e) (default_interval i) (rt\<lparr>invoked := invoked rt + 1\<rparr>))"
  have a: "\<forall>k < length errs. fun (invoked ?rt + k) = Some (Inl (Printable (errs ! k)))"
  proof (intro allI impI)
    fix k assume "k < length errs"
    then have "Suc k < length (e # errs)" by simp
    with Cons.prems(1) have "fun (invoked rt + Suc k) = Some (Inl (Printable ((e # errs) ! Suc k)))"
      by blast
    then show "fun (invoked ?rt + k) = Some (Inl (Printable (errs ! k)))" by simp
  qed
  have b: "fun (invoked ?rt + length errs) = Some (Inr v)"
    using Cons.prems(2) by simp
  from Cons.IH[OF a b, of None] obtain rt' where r:
    "fetchWithRetry fun None ?rt = Some (Inr v, rt')"
    "invoked rt' = invoked ?rt + length errs + 1"
    "console rt' = console ?rt @ retry_log (default_interval None) errs"
    "map snd (scheduled rt') = map snd (scheduled ?rt) @
       (if errs = [] then []
        else delay_ms (Num (1000 * default_interval None)) # replicate (length errs - 1) 5000)"
    by blast
  have "fetchWithRetry fun i rt = Some (Inr v, rt')"
    using fetchWithRetry_rejected[of "fun", OF e, of i] r(1) by simp
  moreover have "invoked rt' = invoked rt + length (e # errs) + 1"
    using r(2) by simp
  moreover have "console rt' = console rt @ retry_log (default_interval i) (e # errs)"
    using r(3) by (simp add: default_interval_def)
  moreover have "map snd (scheduled rt') =
      map snd (scheduled rt) @ delay_ms (Num (1000 * default_interval i)) # replicate (length errs) 5000"
    using r(4) by (cases errs) (simp_all add: default_interval_def)
  ultimately show ?case by simp
qed

text \<open>
  Claim C1. An operation that fails twice and then succeeds, with an interval of 10
  seconds: the call resolves with the value of the third invocation after two timers,
  the first of 10000 and the second of 5000 milliseconds.
\<close>

theorem fetchWithRetry_second_delay_is_default:
  "fetchWithRetry
     (\<lambda>k. if k < 2 then Some (Inl (Printable (Error ''down''))) else Some (Inr (JString ''ok'')))
     (Some 10) runtime0
   = Some (Inr (JString ''ok''),
       \<lparr>timeouts = [], immediates = [], scheduled = [(0, 10000), (1, 5000)], next_id = 2,
         sent = [],
         console = [LogError (Error ''down''), LogRetry 10, LogError (Error ''down''), LogRetry 5],
         invoked = 3\<rparr>)"
  by (simp add: fetchWithRetry_rejected fetchWithRetry_resolved runtime0_def catch_and_wait_def
      catch_block_def setTimeout_def default_interval_def)

text \<open>
  Claim C9. An operation whose first invocation rejects with an object that
  \<^verbatim>\<open>console.log\<close> cannot print (its inspection throws \<^verbatim>\<open>Error("boom")\<close>): the exception
  leaves the \<^verbatim>\<open>catch\<close> block at its first line, so the promise of \<^verbatim>\<open>fetchWithRetry\<close>
  rejects with it; nothing is logged, no timer is set and the operation is not
  invoked again.
\<close>

theorem fetchWithRetry_rejects_when_logging_throws:
  "fetchWithRetry
     (\<lambda>k. if k < 1 then Some (Inl (Uninspectable (Printable (Error ''boom''))))
           else Some (Inr (JString ''ok'')))
     None runtime0
   = Some (Inl (Printable (Error ''boom'')),
       \<lparr>timeouts = [], immediates = [], scheduled = [], next_id = 0, sent = [], console = [],
         invoked = 1\<rparr>)"
  by (simp add: fetchWithRetry_thrown runtime0_def)

section \<open>Properties of the steps of a retry loop\<close>

lemma update_join:
  "promise s = Some r \<Longrightarrow> runs s = [(r, ph)] \<Longrightarrow> \<forall>x. ph \<noteq> Rejected x \<Longrightarrow>
   update c s = s\<lparr>waiting := waiting s @ [(c, r)]\<rparr>"
  by (cases ph) (simp_all add: update_def)

lemma update_thrown:
  "promise s = Some r \<Longrightarrow> map_of (runs s) r = Some (Rejected x) \<Longrightarrow>
   update c s = s\<lparr>thrown := thrown s @ [(c, x)]\<rparr>"
  by (simp add: update_def)

lemma update_busy:
  "promise s = Some r \<Longrightarrow>
   update c s = s\<lparr>waiting := waiting s @ [(c, r)]\<rparr> \<or> (\<exists>x. update c s = s\<lparr>thrown := thrown s @ [(c, x)]\<rparr>)"
  by (auto simp: update_def split: option.splits retry_phase.splits)

lemma update_start:
  "promise s = None \<Longrightarrow>
   update c s = s\<lparr>promise := Some (started s), runs := runs s @ [(started s, AwaitFun 5)],
     started := started s + 1, waiting := waiting s @ [(c, started s)],
     host := (host s)\<lparr>invoked := invoked (host s) + 1\<rparr>\<rparr>"
  by (simp add: update_def fetchWithRetry_start_def default_interval_def Let_def)

lemma single_flight_idle:
  "promise s = None \<Longrightarrow> single_flight s = (runs s = [] \<and> waiting s = [])"
  by (simp add: single_flight_def)

lemma single_flight_busy:
  "promise s = Some r \<Longrightarrow>
   single_flight s = (map fst (runs s) = [r] \<and> r < started s \<and> list_all (\<lambda>w. snd w = r) (waiting s))"
  by (simp add: single_flight_def)

lemma single_flight_frame:
  "promise s' = promise s \<Longrightarrow> runs s' = runs s \<Longrightarrow> started s' = started s \<Longrightarrow>
   waiting s' = waiting s \<Longrightarrow> single_flight s' = single_flight s"
  by (simp add: single_flight_def split: option.splits)

lemma single_flight_update: "single_flight s \<Longrightarrow> single_flight (update c s)"
proof (cases "promise s")
  case None
  assume "single_flight s"
  with None show ?thesis by (simp add: update_start single_flight_idle single_flight_busy)
next
  case (Some r)
  assume a: "single_flight s"
  from update_busy[OF Some, of c] show ?thesis
  proof
    assume "update c s = s\<lparr>waiting := waiting s @ [(c, r)]\<rparr>"
    with a Some show ?thesis by (simp add: single_flight_busy)
  next
    assume "\<exists>x. update c s = s\<lparr>thrown := thrown s @ [(c, x)]\<rparr>"
    then obtain x where "update c s = s\<lparr>thrown := thrown s @ [(c, x)]\<rparr>" by blast
    with a Some show ?thesis by (simp add: single_flight_busy)
  qed
qed

lemma runs_single: "map fst rs = [r] \<Longrightarrow> \<exists>ph. rs = [(r, ph)]"
  by (cases rs) auto

lemma retry_step_rejects:
  "runs s = [(r, AwaitFun i)] \<Longrightarrow> catch_block err i (host s) = Inr (t, rt1) \<Longrightarrow>
   retry_step (FunRejects r err) s = s\<lparr>runs := [(r, AwaitTimer t)], host := rt1\<rparr>"
  by (simp add: set_phase_def)

lemma retry_step_throws:
  "runs s = [(r, AwaitFun i)] \<Longrightarrow>
   retry_step (FunRejects r (Uninspectable x)) s = reject_run r x s"
  by simp

lemma retry_step_fires:
  "runs s = [(r, AwaitTimer t)] \<Longrightarrow>
   retry_step (TimerFires r) s =
     s\<lparr>runs := [(r, AwaitFun 5)], host := (fire t (host s))\<lparr>invoked := invoked (fire t (host s)) + 1\<rparr>\<rparr>"
  by (simp add: set_phase_def fetchWithRetry_start_def default_interval_def)

lemma reject_run_keeps:
  "promise (reject_run r x s) = promise s \<and> started (reject_run r x s) = started s
   \<and> callers (reject_run r x s) = callers s \<and> host (reject_run r x s) = host s
   \<and> flight.more (reject_run r x s) = flight.more s
   \<and> waiting (reject_run r x s) = filter (\<lambda>(c, r'). r' \<noteq> r) (waiting s)
   \<and> runs (reject_run r x s) = set_phase r (Rejected x) (runs s)"
  by (simp add: reject_run_def Let_def)

lemma retry_step_keeps:
  "promise (retry_step ev s) = promise s \<and> started (retry_step ev s) = started s
   \<and> callers (retry_step ev s) = callers s
   \<and> flight.more (retry_step ev s) = flight.more s"
  by (cases ev)
    (simp_all add: Let_def reject_run_keeps
      split: option.splits retry_phase.splits prod.splits sum.splits)

lemma retry_step_waiting:
  "waiting (retry_step ev s) = waiting s
   \<or> (\<exists>r. waiting (retry_step ev s) = filter (\<lambda>(c, r'). r' \<noteq> r) (waiting s))"
  by (cases ev)
    (auto simp: Let_def reject_run_keeps
      split: option.splits retry_phase.splits prod.splits sum.splits)

lemma retry_step_pending:
  "\<not> ends_run ev \<Longrightarrow>
   waiting (retry_step ev s) = waiting s \<and> thrown (retry_step ev s) = thrown s"
proof (cases ev)
  case (FunRejects r z)
  assume "\<not> ends_run ev"
  with FunRejects obtain e where "z = Printable e" by (cases z) auto
  with FunRejects show ?thesis
    by (simp add: catch_block_Printable split: option.splits retry_phase.splits prod.splits)
next
  case (FunResolves r v)
  assume "\<not> ends_run ev"
  with FunResolves show ?thesis by simp
next
  case (TimerFires r)
  then show ?thesis
    by (simp add: Let_def split: option.splits retry_phase.splits prod.splits)
qed

lemma map_fst_set_phase: "map fst (set_phase r ph rs) = map fst rs"
  by (induction rs) (auto simp: set_phase_def)

lemma retry_step_runs:
  "map fst (runs (retry_step ev s)) = map fst (runs s) \<or> resolved ev s \<noteq> None"
  by (cases ev)
    (simp_all add: map_fst_set_phase Let_def reject_run_keeps
      split: option.splits retry_phase.splits prod.splits sum.splits)

lemma single_flight_retry_step:
  assumes "single_flight s" "resolved ev s = None"
  shows "single_flight (retry_step ev s)"
proof -
  from retry_step_runs[of ev s] assms(2)
  have r: "map fst (runs (retry_step ev s)) = map fst (runs s)" by simp
  have w: "list_all P (waiting (retry_step ev s))" if "list_all P (waiting s)" for P
    using retry_step_waiting[of ev s] that by (auto simp: list_all_iff)
  have e: "waiting (retry_step ev s) = []" if "waiting s = []"
    using retry_step_waiting[of ev s] that by auto
  show ?thesis
  proof (cases "promise s")
    case None
    with assms(1) r e retry_step_keeps[of ev s] show ?thesis
      by (simp add: single_flight_def)
  next
    case (Some r0)
    with assms(1) r w[of "\<lambda>w. snd w = r0"] retry_step_keeps[of ev s] show ?thesis
      by (simp add: single_flight_def)
  qed
qed

lemma retry_round:
  assumes "runs s = [(r, AwaitFun i)]"
  shows "retry_step (TimerFires r) (retry_step (FunRejects r (Printable e)) s) =
     s\<lparr>runs := [(r, AwaitFun 5)],
       host := (projr (catch_and_wait (Printable e) i (host s)))\<lparr>invoked := invoked (host s) + 1\<rparr>\<rparr>"
proof -
  obtain t rt1 where c: "catch_block (Printable e) i (host s) = Inr (t, rt1)"
    by (simp add: catch_block_Printable setTimeout_def)
  have w: "projr (catch_and_wait (Printable e) i (host s)) = fire t rt1"
    using c by (simp add: catch_and_wait_def)
  have i: "invoked (fire t rt1) = invoked (host s)"
    using w invoked_catch_and_wait[of e i "host s"] by simp
  let ?s1 = "s\<lparr>runs := [(r, AwaitTimer t)], host := rt1\<rparr>"
  have "retry_step (FunRejects r (Printable e)) s = ?s1"
    by (rule retry_step_rejects[OF assms c])
  moreover have "retry_step (TimerFires r) ?s1 =
      ?s1\<lparr>runs := [(r, AwaitFun 5)], host := (fire t (host ?s1))\<lparr>invoked := invoked (fire t (host ?s1)) + 1\<rparr>\<rparr>"
    by (rule retry_step_fires) simp
  ultimately show ?thesis using w i by simp
qed

lemma retry_rounds_Cons:
  "foldl (\<lambda>s ev. retry_step ev s) s (retry_rounds r (e # errs) :: 'v run_event list) =
   foldl (\<lambda>s ev. retry_step ev s)
     (retry_step (TimerFires r :: 'v run_event) (retry_step (FunRejects r (Printable e) :: 'v run_event) s))
     (retry_rounds r errs :: 'v run_event list)"
  by (simp add: retry_rounds_def del: retry_step.simps)

lemma retry_rounds_run:
  "runs s = [(r, AwaitFun i)] \<Longrightarrow>
   \<exists>j rt. foldl (\<lambda>s ev. retry_step ev s) s (retry_rounds r errs :: 'v run_event list) =
       s\<lparr>runs := [(r, AwaitFun j)], host := rt\<rparr>
     \<and> invoked rt = invoked (host s) + length errs"
proof (induction errs arbitrary: s i)
  case Nil
  then have "s = s\<lparr>runs := [(r, AwaitFun i)], host := host s\<rparr>" by simp
  then have "foldl (\<lambda>s ev. retry_step ev s) s (retry_rounds r [] :: 'v run_event list) =
       s\<lparr>runs := [(r, AwaitFun i)], host := host s\<rparr>
     \<and> invoked (host s) = invoked (host s) + length ([] :: error list)"
    by (simp add: retry_rounds_def)
  then show ?case by blast
next
  case (Cons e errs)
  let ?s = "s\<lparr>runs := [(r, AwaitFun 5)],
       host := (projr (catch_and_wait (Printable e) i (host s)))\<lparr>invoked := invoked (host s) + 1\<rparr>\<rparr>"
  have r: "runs ?s = [(r, AwaitFun 5)]" by simp
  from Cons.IH[OF r] obtain j rt where
    a: "foldl (\<lambda>s ev. retry_step ev s) ?s (retry_rounds r errs :: 'v run_event list) =
          ?s\<lparr>runs := [(r, AwaitFun j)], host := rt\<rparr>"
    and b: "invoked rt = invoked (host ?s) + length errs" by blast
  have "foldl (\<lambda>s ev. retry_step ev s) s (retry_rounds r (e # errs) :: 'v run_event list) =
        foldl (\<lambda>s ev. retry_step ev s) ?s (retry_rounds r errs :: 'v run_event list)"
    by (simp only: retry_rounds_Cons retry_round[OF Cons.prems])
  with a have "foldl (\<lambda>s ev. retry_step ev s) s (retry_rounds r (e # errs) :: 'v run_event list) =
      s\<lparr>runs := [(r, AwaitFun j)], host := rt\<rparr>"
    by simp
  moreover from b have "invoked rt = invoked (host s) + length (e # errs)" by simp
  ultimately show ?case by blast
qed

text \<open>
  The steps compute what \<^verbatim>\<open>fetchWithRetry\<close> computes. When the operation fails with
  \<open>errs\<close> and then succeeds, the call resolves in the host that the rounds of steps
  leave; when its pending invocation rejects with a value that cannot be printed,
  the step rejects the call with the exception that \<^verbatim>\<open>fetchWithRetry\<close> rejects with.
\<close>

lemma retry_steps_agree:
  fixes s :: "'a flight_scheme"
  assumes "runs s = [(r, AwaitFun (default_interval a))]"
    and "host s = rt\<lparr>invoked := invoked rt + 1\<rparr>"
    and "\<forall>k < length errs. fun (invoked rt + k) = Some (Inl (Printable (errs ! k)))"
    and "fun (invoked rt + length errs) = Some (Inr v)"
  shows "fetchWithRetry fun a rt =
     Some (Inr v, host (foldl (\<lambda>s ev. retry_step ev s) s (retry_rounds r errs :: 'v run_event list)))"
  using assms
proof (induction errs arbitrary: s a rt)
  case Nil
  then show ?case by (simp add: fetchWithRetry_resolved retry_rounds_def)
next
  case (Cons e errs)
  let ?i = "default_interval a"
  let ?rt = "projr (catch_and_wait (Printable e) ?i (host s))"
  let ?s = "s\<lparr>runs := [(r, AwaitFun 5)], host := ?rt\<lparr>invoked := invoked (host s) + 1\<rparr>\<rparr>"
  from Cons.prems(3) have e: "fun (invoked rt) = Some (Inl (Printable e))" by fastforce
  have big: "fetchWithRetry fun a rt = fetchWithRetry fun None ?rt"
    using fetchWithRetry_rejected[of "fun", OF e, of a] Cons.prems(2) by simp
  have inv: "invoked (host s) = invoked rt + 1" using Cons.prems(2) by simp
  have r: "runs ?s = [(r, AwaitFun (default_interval None))]"
    by (simp add: default_interval_def)
  have h: "host ?s = ?rt\<lparr>invoked := invoked ?rt + 1\<rparr>" by simp
  have f: "\<forall>k < length errs. fun (invoked ?rt + k) = Some (Inl (Printable (errs ! k)))"
  proof (intro allI impI)
    fix k assume "k < length errs"
    then have "Suc k < length (e # errs)" by simp
    with Cons.prems(3) have "fun (invoked rt + Suc k) = Some (Inl (Printable ((e # errs) ! Suc k)))"
      by blast
    then show "fun (invoked ?rt + k) = Some (Inl (Printable (errs ! k)))" by (simp add: inv)
  qed
  have v: "fun (invoked ?rt + length errs) = Some (Inr v)"
    using Cons.prems(4) by (simp add: inv)
  have small: "foldl (\<lambda>s ev. retry_step ev s) s (retry_rounds r (e # errs) :: 'v run_event list) =
      foldl (\<lambda>s ev. retry_step ev s) ?s (retry_rounds r errs :: 'v run_event list)"
    by (simp only: retry_rounds_Cons retry_round[OF Cons.prems(1)])
  from Cons.IH[OF r h f v] big small show ?case by simp
qed

lemma retry_steps_agree_thrown:
  fixes s :: "'a flight_scheme"
  assumes "runs s = [(r, AwaitFun (default_interval a))]"
    and "host s = rt\<lparr>invoked := invoked rt + 1\<rparr>"
    and "fun (invoked rt) = Some (Inl (Uninspectable x))"
  shows "fetchWithRetry fun a rt = Some (Inl x, host (retry_step (FunRejects r (Uninspectable x)) s))"
    and "runs (retry_step (FunRejects r (Uninspectable x)) s) = [(r, Rejected x)]"
  using assms by (simp_all add: fetchWithRetry_thrown reject_run_def set_phase_def)

lemma resolved_retry_rounds:
  "ev \<in> set (retry_rounds r errs) \<Longrightarrow> resolved ev s = None"
  by (induction errs) (auto simp: retry_rounds_def)

lemma filter_waiting_none:
  "list_all (\<lambda>w. snd w = r) ws \<Longrightarrow> filter (\<lambda>(c, r'). r' \<noteq> r) ws = []"
  by (induction ws) auto

lemma resolved_Some:
  "resolved ev s = Some (r, v) \<Longrightarrow> ev = FunResolves r v \<and> (\<exists>i. map_of (runs s) r = Some (AwaitFun i))"
  by (cases ev) (auto split: option.splits retry_phase.splits)

lemma single_flight_resolved:
  assumes "single_flight s" "resolved ev s = Some (r, v)"
  shows "promise s = Some r \<and> (\<exists>i. runs s = [(r, AwaitFun i)]) \<and> list_all (\<lambda>w. snd w = r) (waiting s)"
proof -
  from resolved_Some[OF assms(2)] obtain i where i: "map_of (runs s) r = Some (AwaitFun i)" by blast
  then have "runs s \<noteq> []" by auto
  with assms(1) obtain r' where r': "promise s = Some r'"
    by (cases "promise s") (auto simp: single_flight_idle)
  with assms(1) obtain ph where ph: "runs s = [(r', ph)]"
    by (auto simp: single_flight_busy dest: runs_single)
  with i have "r' = r \<and> ph = AwaitFun i" by (auto split: if_splits)
  with r' ph assms(1) show ?thesis by (auto simp: single_flight_busy)
qed

section \<open>Properties of fixedRefresh\<close>

lemma accessor_cached:
  "now - lastUpdateTimestamp s < interval * 1000 \<Longrightarrow> truthy (res s) \<Longrightarrow>
   accessor interval now s = s\<lparr>callers := callers s + 1, returned := returned s @ [(callers s, res s)]\<rparr>"
  by (simp add: accessor_def Let_def)

lemma accessor_refresh:
  "now - lastUpdateTimestamp s \<ge> interval * 1000 \<or> \<not> truthy (res s) \<Longrightarrow>
   accessor interval now s = update (callers s) (s\<lparr>callers := callers s + 1\<rparr>)"
  by (simp add: accessor_def Let_def)

lemma fixedRefresh_step_resolves:
  "runs s = [(r, AwaitFun i)] \<Longrightarrow>
   fixedRefresh_step interval s (Refresh (FunResolves r v) now) =
     fixedRefresh_resume r v now (s\<lparr>runs := []\<rparr>)"
  by simp

lemma fixedRefresh_run_retry:
  "\<forall>ev \<in> set evs. \<forall>s. resolved ev (s :: cache_state) = None \<Longrightarrow>
   fixedRefresh_run interval (map (\<lambda>ev. Refresh ev now) evs) s = foldl (\<lambda>s ev. retry_step ev s) s evs"
  unfolding fixedRefresh_run_def
  by (induction evs arbitrary: s) simp_all

lemma fixedRefresh_run_append:
  "fixedRefresh_run interval (evs @ evs') s =
     fixedRefresh_run interval evs' (fixedRefresh_run interval evs s)"
  by (simp add: fixedRefresh_run_def)

lemma accesses_join:
  "promise s = Some r \<Longrightarrow> runs s = [(r, AwaitFun i)] \<Longrightarrow>
   \<forall>now \<in> set ts. now - lastUpdateTimestamp s \<ge> interval * 1000 \<or> \<not> truthy (res s) \<Longrightarrow>
   fixedRefresh_run interval (map Access ts) s =
     s\<lparr>waiting := waiting s @ map (\<lambda>c. (c, r)) [callers s ..< callers s + length ts],
       callers := callers s + length ts\<rparr>"
proof (induction ts arbitrary: s)
  case Nil
  then show ?case by (simp add: fixedRefresh_run_def)
next
  case (Cons now ts)
  let ?s = "s\<lparr>callers := callers s + 1, waiting := waiting s @ [(callers s, r)]\<rparr>"
  have trig: "now - lastUpdateTimestamp s \<ge> interval * 1000 \<or> \<not> truthy (res s)"
    using Cons.prems(3) by auto
  have "update (callers s) (s\<lparr>callers := callers s + 1\<rparr>) =
      (s\<lparr>callers := callers s + 1\<rparr>)\<lparr>waiting := waiting (s\<lparr>callers := callers s + 1\<rparr>) @ [(callers s, r)]\<rparr>"
    by (rule update_join[where ph = "AwaitFun i"]) (simp_all add: Cons.prems(1,2))
  then have st: "fixedRefresh_step interval s (Access now) = ?s"
    by (simp add: accessor_refresh[OF trig])
  have p: "promise ?s = Some r" using Cons.prems by simp
  have q: "runs ?s = [(r, AwaitFun i)]" using Cons.prems by simp
  have t: "\<forall>now \<in> set ts. now - lastUpdateTimestamp ?s \<ge> interval * 1000 \<or> \<not> truthy (res ?s)"
    using Cons.prems(3) by auto
  have u: "[callers s ..< callers s + length (now # ts)] = callers s # [callers s + 1 ..< callers s + 1 + length ts]"
    by (subst upt_rec) simp
  have "fixedRefresh_run interval (map Access (now # ts)) s = fixedRefresh_run interval (map Access ts) ?s"
    using st by (simp add: fixedRefresh_run_def)
  also have "\<dots> = ?s\<lparr>waiting := waiting ?s @ map (\<lambda>c. (c, r)) [callers ?s ..< callers ?s + length ts],
       callers := callers ?s + length ts\<rparr>"
    by (rule Cons.IH[OF p q t])
  also have "\<dots> = s\<lparr>waiting := waiting s @ map (\<lambda>c. (c, r)) [callers s ..< callers s + length (now # ts)],
       callers := callers s + length (now # ts)\<rparr>"
    unfolding u by simp
  finally show ?case .
qed


lemma accesses_start:
  assumes idle: "promise s = None" "runs s = []" "waiting s = []"
    and ne: "ts \<noteq> []"
    and trig: "\<forall>now \<in> set ts. now - lastUpdateTimestamp s \<ge> interval * 1000 \<or> \<not> truthy (res s)"
  shows "fixedRefresh_run interval (map Access ts) s =
     s\<lparr>promise := Some (started s), runs := [(started s, AwaitFun 5)], started := started s + 1,
       waiting := map (\<lambda>c. (c, started s)) [callers s ..< callers s + length ts],
       callers := callers s + length ts,
       host := (host s)\<lparr>invoked := invoked (host s) + 1\<rparr>\<rparr>"
proof -
  from ne obtain now ts' where ts: "ts = now # ts'" by (cases ts) auto
  let ?s1 = "s\<lparr>callers := callers s + 1, promise := Some (started s),
       runs := [(started s, AwaitFun 5)], started := started s + 1,
       waiting := [(callers s, started s)],
       host := (host s)\<lparr>invoked := invoked (host s) + 1\<rparr>\<rparr>"
  have t0: "now - lastUpdateTimestamp s \<ge> interval * 1000 \<or> \<not> truthy (res s)"
    using trig ts by auto
  have st: "fixedRefresh_step interval s (Access now) = ?s1"
    using idle by (simp add: accessor_refresh[OF t0] update_start)
  have p: "promise ?s1 = Some (started s)" by simp
  have q: "runs ?s1 = [(started s, AwaitFun 5)]" by simp
  have t: "\<forall>now \<in> set ts'. now - lastUpdateTimestamp ?s1 \<ge> interval * 1000 \<or> \<not> truthy (res ?s1)"
    using trig ts by auto
  have u: "[callers s ..< callers s + length ts] = callers s # [callers s + 1 ..< callers s + 1 + length ts']"
    unfolding ts by (subst upt_rec) simp
  have "fixedRefresh_run interval (map Access ts) s = fixedRefresh_run interval (map Access ts') ?s1"
    using st ts by (simp add: fixedRefresh_run_def)
  also have "\<dots> = ?s1\<lparr>waiting := waiting ?s1 @ map (\<lambda>c. (c, started s)) [callers ?s1 ..< callers ?s1 + length ts'],
       callers := callers ?s1 + length ts'\<rparr>"
    by (rule accesses_join[OF p q t])
  also have "\<dots> = s\<lparr>promise := Some (started s), runs := [(started s, AwaitFun 5)], started := started s + 1,
       waiting := map (\<lambda>c. (c, started s)) [callers s ..< callers s + length ts],
       callers := callers s + length ts,
       host := (host s)\<lparr>invoked := invoked (host s) + 1\<rparr>\<rparr>"
    unfolding u by (simp add: ts)
  finally show ?thesis .
qed

lemma filter_waiting_all:
  "map fst (filter (\<lambda>(c, r'). r' = r) (map (\<lambda>c. (c, r)) cs)) = cs
   \<and> filter (\<lambda>(c, r'). r' \<noteq> r) (map (\<lambda>c. (c, r)) cs) = []"
  by (induction cs) simp_all

lemma refresh_resolves:
  assumes "runs s = [(r, AwaitFun i)]" "waiting s = map (\<lambda>c. (c, r)) cs"
  shows "fixedRefresh_step interval s (Refresh (FunResolves r v) now) =
     s\<lparr>runs := [], res := v, lastUpdateTimestamp := now, promise := None, waiting := [],
       returned := returned s @ map (\<lambda>c. (c, v)) cs\<rparr>"
  using assms filter_waiting_all[of r cs]
  by (simp add: fixedRefresh_resume_def Let_def)

lemma refresh_scenario:
  assumes idle: "promise s = None" "runs s = []" "waiting s = []"
    and ne: "ts \<noteq> []"
    and trig: "\<forall>now \<in> set ts. now - lastUpdateTimestamp s \<ge> interval * 1000 \<or> \<not> truthy (res s)"
    and s1: "s1 = fixedRefresh_run interval (map Access ts) s"
    and s2: "s2 = fixedRefresh_run interval (map (\<lambda>ev. Refresh ev t) (retry_rounds (started s) errs)
         @ [Refresh (FunResolves (started s) v) now]) s1"
  shows "started s1 = started s + 1 \<and> invoked (host s1) = invoked (host s) + 1
     \<and> promise s1 = Some (started s) \<and> map fst (runs s1) = [started s]
     \<and> waiting s1 = map (\<lambda>c. (c, started s)) [callers s ..< callers s + length ts]
     \<and> started s2 = started s + 1 \<and> invoked (host s2) = invoked (host s) + 1 + length errs
     \<and> returned s2 = returned s @ map (\<lambda>c. (c, v)) [callers s ..< callers s + length ts]
     \<and> res s2 = v \<and> lastUpdateTimestamp s2 = now
     \<and> promise s2 = None \<and> runs s2 = [] \<and> waiting s2 = []
     \<and> callers s2 = callers s + length ts"
proof -
  let ?r = "started s"
  let ?cs = "[callers s ..< callers s + length ts]"
  have e1: "s1 = s\<lparr>promise := Some ?r, runs := [(?r, AwaitFun 5)], started := ?r + 1,
       waiting := map (\<lambda>c. (c, ?r)) ?cs, callers := callers s + length ts,
       host := (host s)\<lparr>invoked := invoked (host s) + 1\<rparr>\<rparr>"
    unfolding s1 by (rule accesses_start[OF idle ne trig])
  have r1: "runs s1 = [(?r, AwaitFun 5)]" by (simp add: e1)
  have nores: "\<forall>ev \<in> set (retry_rounds ?r errs :: jsval run_event list). \<forall>s. resolved ev (s :: cache_state) = None"
    by (simp add: resolved_retry_rounds)
  from retry_rounds_run[OF r1, of errs] obtain j rt where
    f: "foldl (\<lambda>s ev. retry_step ev s) s1 (retry_rounds ?r errs :: jsval run_event list) =
         s1\<lparr>runs := [(?r, AwaitFun j)], host := rt\<rparr>"
    and i: "invoked rt = invoked (host s1) + length errs" by blast
  let ?s3 = "s1\<lparr>runs := [(?r, AwaitFun j)], host := rt\<rparr>"
  have m: "fixedRefresh_run interval (map (\<lambda>ev. Refresh ev t) (retry_rounds ?r errs)) s1 = ?s3"
    using fixedRefresh_run_retry[OF nores, of interval t s1] f by simp
  have r3: "runs ?s3 = [(?r, AwaitFun j)]" by simp
  have w3: "waiting ?s3 = map (\<lambda>c. (c, ?r)) ?cs" by (simp add: e1)
  have "s2 = fixedRefresh_step interval ?s3 (Refresh (FunResolves ?r v) now)"
    unfolding s2 fixedRefresh_run_append m by (simp add: fixedRefresh_run_def)
  then have e2: "s2 = ?s3\<lparr>runs := [], res := v, lastUpdateTimestamp := now, promise := None, waiting := [],
       returned := returned ?s3 @ map (\<lambda>c. (c, v)) ?cs\<rparr>"
    by (simp only: refresh_resolves[OF r3 w3])
  have a: "started s1 = started s + 1 \<and> invoked (host s1) = invoked (host s) + 1
     \<and> promise s1 = Some (started s) \<and> map fst (runs s1) = [started s]
     \<and> waiting s1 = map (\<lambda>c. (c, started s)) ?cs"
    by (simp add: e1)
  have b: "started s2 = started s + 1 \<and> invoked (host s2) = invoked (host s) + 1 + length errs
     \<and> returned s2 = returned s @ map (\<lambda>c. (c, v)) ?cs
     \<and> res s2 = v \<and> lastUpdateTimestamp s2 = now
     \<and> promise s2 = None \<and> runs s2 = [] \<and> waiting s2 = []
     \<and> callers s2 = callers s + length ts"
    using i by (simp add: e2 e1)
  from a b show ?thesis by simp
qed

text \<open>Every state that the closure reaches keeps \<open>single_flight\<close>.\<close>

lemma single_flight_fixedRefresh_step:
  assumes "single_flight s"
  shows "single_flight (fixedRefresh_step interval s ev)"
proof (cases ev)
  case (Access now)
  have "single_flight (s\<lparr>callers := callers s + 1\<rparr>) = single_flight s"
    by (rule single_flight_frame) simp_all
  with assms have c: "single_flight (s\<lparr>callers := callers s + 1\<rparr>)"
    by simp
  show ?thesis
  proof (cases "now - lastUpdateTimestamp s \<ge> interval * 1000 \<or> \<not> truthy (res s)")
    case True
    show ?thesis
      unfolding Access fixedRefresh_step.simps accessor_refresh[OF True]
      by (rule single_flight_update[OF c])
  next
    case False
    then have "accessor interval now s =
        s\<lparr>callers := callers s + 1, returned := returned s @ [(callers s, res s)]\<rparr>"
      by (simp add: accessor_cached)
    moreover have "single_flight (s\<lparr>callers := callers s + 1,
        returned := returned s @ [(callers s, res s)]\<rparr>) = single_flight s"
      by (rule single_flight_frame) simp_all
    ultimately show ?thesis using assms Access by simp
  qed
next
  case (Refresh rev now)
  show ?thesis
  proof (cases "resolved rev s")
    case None
    with assms Refresh show ?thesis by (simp add: single_flight_retry_step del: retry_step.simps)
  next
    case (Some rv)
    obtain r v where rv: "rv = (r, v)" by (cases rv)
    from single_flight_resolved[OF assms Some[unfolded rv]] obtain i where
      p: "promise s = Some r" and r: "runs s = [(r, AwaitFun i)]"
      and w: "list_all (\<lambda>w. snd w = r) (waiting s)" by blast
    from resolved_Some[OF Some[unfolded rv]] have ev: "rev = FunResolves r v" by simp
    have "fixedRefresh_step interval s ev = fixedRefresh_resume r v now (s\<lparr>runs := []\<rparr>)"
      unfolding Refresh ev by (rule fixedRefresh_step_resolves[OF r])
    then show ?thesis using filter_waiting_none[OF w]
      by (simp add: fixedRefresh_resume_def Let_def single_flight_idle)
  qed
qed

lemma single_flight_fixedRefresh_run:
  "single_flight s \<Longrightarrow> single_flight (fixedRefresh_run interval evs s)"
  unfolding fixedRefresh_run_def
  by (induction evs arbitrary: s) (simp_all add: single_flight_fixedRefresh_step del: fixedRefresh_step.simps)

lemma single_flight_fixedRefresh: "single_flight fixedRefresh"
  by (simp add: single_flight_def fixedRefresh_def)

lemma single_flight_runs: "single_flight s \<Longrightarrow> length (runs s) \<le> 1 \<and> (promise s = None \<longleftrightarrow> runs s = [])"
  by (cases "promise s") (auto simp: single_flight_idle single_flight_busy dest: runs_single)

text \<open>
  Claim C6. At most one call of \<^verbatim>\<open>fetchWithRetry\<close> is pending in any state that the
  closure of \<^verbatim>\<open>fixedRefresh\<close> reaches. When no refresh is pending and the accessor
  is called at the times \<open>ts\<close>, each of which triggers a refresh, one call of
  \<^verbatim>\<open>fetchWithRetry\<close> is started, the operation is invoked once and every caller
  waits for that call. When the operation then fails \<open>length errs\<close> times and
  succeeds with \<open>v\<close>, it has been invoked once for every attempt, and every caller
  receives \<open>v\<close>.
\<close>

theorem fixedRefresh_single_flight:
  assumes "promise s = None" "runs s = []" "waiting s = []"
    and "ts \<noteq> []"
    and "\<forall>now \<in> set ts. now - lastUpdateTimestamp s \<ge> interval * 1000 \<or> \<not> truthy (res s)"
    and "s1 = fixedRefresh_run interval (map Access ts) s"
    and "s2 = fixedRefresh_run interval
           (map (\<lambda>ev. Refresh ev t) (retry_rounds (started s) errs)
            @ [Refresh (FunResolves (started s) v) now]) s1"
  shows "(\<forall>evs. length (runs (fixedRefresh_run interval evs fixedRefresh)) \<le> 1)
     \<and> started s1 = started s + 1 \<and> invoked (host s1) = invoked (host s) + 1
     \<and> promise s1 = Some (started s) \<and> map fst (runs s1) = [started s]
     \<and> waiting s1 = map (\<lambda>c. (c, started s)) [callers s ..< callers s + length ts]
     \<and> started s2 = started s + 1 \<and> invoked (host s2) = invoked (host s) + 1 + length errs
     \<and> returned s2 = returned s @ map (\<lambda>c. (c, v)) [callers s ..< callers s + length ts]
     \<and> res s2 = v \<and> promise s2 = None \<and> runs s2 = []"
proof -
  have "length (runs (fixedRefresh_run interval evs fixedRefresh)) \<le> 1" for evs
    using single_flight_runs[OF single_flight_fixedRefresh_run[OF single_flight_fixedRefresh]]
    by blast
  then show ?thesis
    using refresh_scenario[OF assms] by simp
qed

theorem fixedRefresh_single_flight_witness:
  "promise fixedRefresh = None \<and> runs fixedRefresh = [] \<and> waiting fixedRefresh = []
   \<and> invoked (host (fixedRefresh_run 60
        (map (\<lambda>ev. Refresh ev 1500) (retry_rounds (started fixedRefresh) [])
         @ [Refresh (FunResolves (started fixedRefresh) (JString ''data'')) 2000])
        (fixedRefresh_run 60 (map Access [1000, 1001, 1002]) fixedRefresh))) = 1
   \<and> returned (fixedRefresh_run 60
        (map (\<lambda>ev. Refresh ev 1500) (retry_rounds (started fixedRefresh) [])
         @ [Refresh (FunResolves (started fixedRefresh) (JString ''data'')) 2000])
        (fixedRefresh_run 60 (map Access [1000, 1001, 1002]) fixedRefresh))
      = [(0, JString ''data''), (1, JString ''data''), (2, JString ''data'')]"
proof -
  have i: "promise fixedRefresh = None" "runs fixedRefresh = []" "waiting fixedRefresh = []"
    by (simp_all add: fixedRefresh_def)
  have n: "[1000, 1001, 1002] \<noteq> ([] :: int list)" by simp
  have t: "\<forall>now \<in> set [1000, 1001, 1002].
      now - lastUpdateTimestamp fixedRefresh \<ge> 60 * 1000 \<or> \<not> truthy (res fixedRefresh)"
    by (simp add: fixedRefresh_def)
  from fixedRefresh_single_flight[OF i n t refl refl, of 1500 "[]" "JString ''data''" 2000]
  show ?thesis using i by (simp add: fixedRefresh_def runtime0_def upt_rec)
qed

text \<open>
  Two overlapping calls and an operation that fails once: the operation is invoked
  twice.
\<close>

theorem fixedRefresh_single_flight_counterexample:
  "invoked (host (fixedRefresh_run 60
      [Access 1000, Access 1001, Refresh (FunRejects 0 (Printable (Error ''down''))) 1100,
       Refresh (TimerFires 0) 6100, Refresh (FunResolves 0 (JString ''data'')) 6200]
      fixedRefresh)) = 2
   \<and> returned (fixedRefresh_run 60
      [Access 1000, Access 1001, Refresh (FunRejects 0 (Printable (Error ''down''))) 1100,
       Refresh (TimerFires 0) 6100, Refresh (FunResolves 0 (JString ''data'')) 6200]
      fixedRefresh) = [(0, JString ''data''), (1, JString ''data'')]"
  by (simp add: fixedRefresh_run_def fixedRefresh_def accessor_def update_def
      fixedRefresh_resume_def fetchWithRetry_start_def default_interval_def catch_block_def
      setTimeout_def set_phase_def Let_def runtime0_def)

text \<open>
  Claim C3. After a refresh that ended at time \<open>t1\<close> with a truthy value \<open>v\<close>, a
  call of the accessor less than \<^verbatim>\<open>interval * 1000\<close> milliseconds later returns \<open>v\<close>
  and does not invoke the operation; a call \<^verbatim>\<open>interval * 1000\<close> milliseconds later
  or more starts a refresh, which invokes the operation once more.
\<close>

theorem fixedRefresh_serves_cached_value:
  assumes "promise s = None" "runs s = []" "waiting s = []"
    and "t0 - lastUpdateTimestamp s \<ge> interval * 1000 \<or> \<not> truthy (res s)"
    and "truthy v"
    and "s1 = fixedRefresh_run interval
           (map (\<lambda>ev. Refresh ev t) (retry_rounds (started s) errs)
            @ [Refresh (FunResolves (started s) v) t1])
           (fixedRefresh_run interval (map Access [t0]) s)"
    and "s2 = fixedRefresh_step interval s1 (Access t2)" and "t2 - t1 < interval * 1000"
    and "s3 = fixedRefresh_step interval s2 (Access t3)" and "t3 - t1 \<ge> interval * 1000"
  shows "invoked (host s1) = invoked (host s) + 1 + length errs
     \<and> returned s1 = returned s @ [(callers s, v)]
     \<and> invoked (host s2) = invoked (host s1)
     \<and> returned s2 = returned s @ [(callers s, v), (callers s + 1, v)]
     \<and> promise s2 = None \<and> runs s2 = []
     \<and> invoked (host s3) = invoked (host s1) + 1
     \<and> promise s3 = Some (started s + 1) \<and> runs s3 = [(started s + 1, AwaitFun 5)]
     \<and> waiting s3 = [(callers s + 2, started s + 1)] \<and> returned s3 = returned s2"
proof -
  have n: "[t0] \<noteq> []" by simp
  have t: "\<forall>now \<in> set [t0]. now - lastUpdateTimestamp s \<ge> interval * 1000 \<or> \<not> truthy (res s)"
    using assms(4) by simp
  from refresh_scenario[OF assms(1-3) n t refl assms(6)]
  have f1: "started s1 = started s + 1" "invoked (host s1) = invoked (host s) + 1 + length errs"
    "returned s1 = returned s @ [(callers s, v)]" "res s1 = v" "lastUpdateTimestamp s1 = t1"
    "promise s1 = None" "runs s1 = []" "waiting s1 = []" "callers s1 = callers s + 1"
    by simp_all
  have c: "t2 - lastUpdateTimestamp s1 < interval * 1000" "truthy (res s1)"
    using assms(5,8) f1 by simp_all
  have e2: "s2 = s1\<lparr>callers := callers s1 + 1, returned := returned s1 @ [(callers s1, res s1)]\<rparr>"
    unfolding assms(7) fixedRefresh_step.simps by (rule accessor_cached[OF c])
  have r: "t3 - lastUpdateTimestamp s2 \<ge> interval * 1000 \<or> \<not> truthy (res s2)"
    using assms(10) f1 by (simp add: e2)
  have p: "promise (s2\<lparr>callers := callers s2 + 1\<rparr>) = None"
    using f1 by (simp add: e2)
  have e3: "s3 = update (callers s2) (s2\<lparr>callers := callers s2 + 1\<rparr>)"
    unfolding assms(9) fixedRefresh_step.simps by (rule accessor_refresh[OF r])
  show ?thesis
    unfolding e3 update_start[OF p] using f1 by (simp add: e2)
qed

theorem fixedRefresh_serves_cached_value_witness:
  "truthy (JNumber (Num 1))
   \<and> returned (fixedRefresh_step 1
       (fixedRefresh_run 1
          (map (\<lambda>ev. Refresh ev 0) (retry_rounds (started fixedRefresh) [])
           @ [Refresh (FunResolves (started fixedRefresh) (JNumber (Num 1))) 1000000])
          (fixedRefresh_run 1 (map Access [1000000]) fixedRefresh))
       (Access 1000500)) = [(0, JNumber (Num 1)), (1, JNumber (Num 1))]
   \<and> invoked (host (fixedRefresh_step 1
       (fixedRefresh_run 1
          (map (\<lambda>ev. Refresh ev 0) (retry_rounds (started fixedRefresh) [])
           @ [Refresh (FunResolves (started fixedRefresh) (JNumber (Num 1))) 1000000])
          (fixedRefresh_run 1 (map Access [1000000]) fixedRefresh))
       (Access 1000500))) = 1
   \<and> invoked (host (fixedRefresh_step 1 (fixedRefresh_step 1
       (fixedRefresh_run 1
          (map (\<lambda>ev. Refresh ev 0) (retry_rounds (started fixedRefresh) [])
           @ [Refresh (FunResolves (started fixedRefresh) (JNumber (Num 1))) 1000000])
          (fixedRefresh_run 1 (map Access [1000000]) fixedRefresh))
       (Access 1000500)) (Access 1001500))) = 2"
proof -
  have i: "promise fixedRefresh = None" "runs fixedRefresh = []" "waiting fixedRefresh = []"
    by (simp_all add: fixedRefresh_def)
  have t: "1000000 - lastUpdateTimestamp fixedRefresh \<ge> 1 * 1000 \<or> \<not> truthy (res fixedRefresh)"
    by (simp add: fixedRefresh_def)
  have v: "truthy (JNumber (Num 1))" by simp
  have w: "(1000500 :: int) - 1000000 < 1 * 1000" by simp
  have a: "(1001500 :: int) - 1000000 \<ge> 1 * 1000" by simp
  from fixedRefresh_serves_cached_value[OF i t v refl refl w refl a, of 0 "[]"]
  show ?thesis by (simp add: fixedRefresh_def runtime0_def)
qed

text \<open>
  An operation whose value is \<^verbatim>\<open>0\<close>: the second call, 10 milliseconds after the
  update of a cache of 60 seconds, invokes the operation again.
\<close>

theorem fixedRefresh_serves_cached_value_counterexample:
  "invoked (host (fixedRefresh_run 60
      [Access 1000, Refresh (FunResolves 0 (JNumber (Num 0))) 1010, Access 1020] fixedRefresh)) = 2"
  by (simp add: fixedRefresh_run_def fixedRefresh_def accessor_def update_def fixedRefresh_resume_def
      fetchWithRetry_start_def default_interval_def Let_def runtime0_def)

text \<open>
  A refresh that rejects leaves its rejected promise in the variable \<open>promise\<close>:
  the callers that waited for it are rejected, and so is every later call that asks
  for a refresh; no refresh is started again.
\<close>

lemma fixedRefresh_rejected_refresh:
  "thrown (fixedRefresh_run 60
      [Access 1000, Refresh (FunRejects 0 (Uninspectable (Printable (Error ''boom'')))) 1100,
       Access 1200] fixedRefresh)
     = [(0, Printable (Error ''boom'')), (1, Printable (Error ''boom''))]
   \<and> started (fixedRefresh_run 60
      [Access 1000, Refresh (FunRejects 0 (Uninspectable (Printable (Error ''boom'')))) 1100,
       Access 1200] fixedRefresh) = 1
   \<and> returned (fixedRefresh_run 60
      [Access 1000, Refresh (FunRejects 0 (Uninspectable (Printable (Error ''boom'')))) 1100,
       Access 1200] fixedRefresh) = []"
  by (simp add: fixedRefresh_run_def fixedRefresh_def accessor_def update_def reject_run_def
      fetchWithRetry_start_def default_interval_def set_phase_def Let_def runtime0_def)

section \<open>Properties of fetchWithAuth\<close>

lemma fetchWithAuth_step_resolves:
  "runs s = [(r, AwaitFun i)] \<Longrightarrow>
   fetchWithAuth_step s (Token (FunResolves r v)) = fetchWithAuth_resume r v (s\<lparr>runs := []\<rparr>)"
  by simp

lemma addHeader_None:
  "addHeader None ''Authorization'' v =
     (if list_all header_value_char v then Inr (empty_init\<lparr>headers := [(''authorization'', v)]\<rparr>)
      else Inl (TypeError ''Invalid character in header content''))"
  by (simp add: addHeader_def Headers_new_def Headers_set_def validate_Authorization
      validateHeaderValue_def lower_char_def)

lemma auth_call_cases:
  "(\<exists>i. addHeader init ''Authorization'' (Authorization s) = Inr i
        \<and> auth_call url init s =
            s\<lparr>callers := callers s + 1, args := (args s)(callers s := (url, init)),
              requests := requests s @ [(callers s, url, i)],
              first_attempt := first_attempt s @ [callers s]\<rparr>)
   \<or> (\<exists>e. addHeader init ''Authorization'' (Authorization s) = Inl e
        \<and> auth_call url init s =
            s\<lparr>callers := callers s + 1, args := (args s)(callers s := (url, init)),
              settled := settled s @ [(callers s, Inl e)]\<rparr>)"
  by (cases "addHeader init ''Authorization'' (Authorization s)")
    (simp_all add: auth_call_def authorized_def Let_def)

lemma auth_call_flight:
  "promise (auth_call url init s) = promise s" "runs (auth_call url init s) = runs s"
  "started (auth_call url init s) = started s" "waiting (auth_call url init s) = waiting s"
  "host (auth_call url init s) = host s" "callers (auth_call url init s) = callers s + 1"
  using auth_call_cases[where url = url and init = init and s = s] by auto

lemma auth_settle_refused:
  "c \<in> set (first_attempt s) \<Longrightarrow> status r = 401 \<or> status r = 403 \<Longrightarrow>
   auth_settle c (Inr r) s = update c (s\<lparr>first_attempt := removeAll c (first_attempt s)\<rparr>)"
  by (auto simp: auth_settle_def Let_def)

lemma auth_settle_second:
  "c \<notin> set (first_attempt s) \<Longrightarrow> c \<in> set (second_attempt s) \<Longrightarrow>
   auth_settle c out s =
     s\<lparr>second_attempt := removeAll c (second_attempt s), settled := settled s @ [(c, out)]\<rparr>"
  by (simp add: auth_settle_def)

text \<open>The callers that a refresh resumes make their second requests one after the other.\<close>

lemma second_request_cases:
  "(\<exists>i. addHeader (snd (args s c)) ''Authorization'' (Authorization s) = Inr i
        \<and> second_request s c =
            s\<lparr>requests := requests s @ [(c, fst (args s c), i)],
              second_attempt := second_attempt s @ [c]\<rparr>)
   \<or> (\<exists>e. addHeader (snd (args s c)) ''Authorization'' (Authorization s) = Inl e
        \<and> second_request s c = s\<lparr>settled := settled s @ [(c, Inl e)]\<rparr>)"
  by (cases "addHeader (snd (args s c)) ''Authorization'' (Authorization s)")
    (simp_all add: second_request_def authorized_def)

lemma second_request_keeps:
  "promise (second_request s c) = promise s" "runs (second_request s c) = runs s"
  "started (second_request s c) = started s" "waiting (second_request s c) = waiting s"
  "host (second_request s c) = host s" "callers (second_request s c) = callers s"
  "Authorization (second_request s c) = Authorization s" "args (second_request s c) = args s"
  "first_attempt (second_request s c) = first_attempt s"
  using second_request_cases[of s c] by auto

lemma second_requests_keep:
  "promise (foldl second_request s cs) = promise s \<and> runs (foldl second_request s cs) = runs s
   \<and> started (foldl second_request s cs) = started s
   \<and> waiting (foldl second_request s cs) = waiting s
   \<and> host (foldl second_request s cs) = host s \<and> callers (foldl second_request s cs) = callers s
   \<and> Authorization (foldl second_request s cs) = Authorization s
   \<and> args (foldl second_request s cs) = args s
   \<and> first_attempt (foldl second_request s cs) = first_attempt s"
  by (induction cs arbitrary: s) (simp_all add: second_request_keeps)

lemma attempts_second_request:
  "attempts c' (second_request s c) \<le> attempts c' s + (if c' = c then 1 else 0)"
  "c' \<noteq> c \<Longrightarrow> attempts c' (second_request s c) = attempts c' s"
  using second_request_cases[of s c] by (auto simp: attempts_def)

lemma attempts_second_requests:
  "distinct cs \<Longrightarrow>
   attempts c' (foldl second_request s cs) \<le> attempts c' s + (if c' \<in> set cs then 1 else 0)"
proof (induction cs arbitrary: s)
  case Nil
  show ?case by simp
next
  case (Cons c cs)
  from Cons.prems have d: "distinct cs" and n: "c \<notin> set cs" by simp_all
  from Cons.IH[OF d, of "second_request s c"]
  have i: "attempts c' (foldl second_request (second_request s c) cs)
      \<le> attempts c' (second_request s c) + (if c' \<in> set cs then 1 else 0)" .
  show ?case
  proof (cases "c' = c")
    case True
    with n i attempts_second_request(1)[of c' s c] show ?thesis by simp
  next
    case False
    with i attempts_second_request(2)[OF False, of s] show ?thesis by simp
  qed
qed

lemma attempts_second_requests_other:
  "c' \<notin> set cs \<Longrightarrow> attempts c' (foldl second_request s cs) = attempts c' s"
  by (induction cs arbitrary: s) (simp_all add: attempts_second_request(2))

text \<open>
  A caller among those resumed has made its second request with the credential of
  the closure, or its call has rejected with the exception of \<^verbatim>\<open>addHeader\<close> and it has
  made no request.
\<close>

lemma second_requests_made:
  assumes "c \<in> set cs"
    and "addHeader (snd (args s c)) ''Authorization'' (Authorization s) = Inr i"
  shows "(c, fst (args s c), i) \<in> set (requests (foldl second_request s cs))
     \<and> c \<in> set (second_attempt (foldl second_request s cs))"
proof -
  have mono: "set (requests s) \<subseteq> set (requests (foldl second_request s cs))
      \<and> set (second_attempt s) \<subseteq> set (second_attempt (foldl second_request s cs))" for s cs
  proof (induction cs arbitrary: s)
    case Nil
    show ?case by simp
  next
    case (Cons a cs)
    from second_request_cases[of s a]
    have "set (requests s) \<subseteq> set (requests (second_request s a))
        \<and> set (second_attempt s) \<subseteq> set (second_attempt (second_request s a))" by auto
    with Cons[of "second_request s a"] show ?case by auto
  qed
  from assms show ?thesis
  proof (induction cs arbitrary: s)
    case Nil
    then show ?case by simp
  next
    case (Cons a cs)
    show ?case
    proof (cases "a = c")
      case True
      from second_request_cases[of s c] Cons.prems(2)
      have "(c, fst (args s c), i) \<in> set (requests (second_request s c))
          \<and> c \<in> set (second_attempt (second_request s c))" by auto
      with mono[of "second_request s c" cs] True show ?thesis by auto
    next
      case False
      with Cons.prems(1) have "c \<in> set cs" by simp
      moreover have "addHeader (snd (args (second_request s a) c)) ''Authorization''
          (Authorization (second_request s a)) = Inr i"
        using Cons.prems(2) by (simp add: second_request_keeps)
      ultimately show ?thesis
        using Cons.IH[of "second_request s a"] by (simp add: second_request_keeps)
    qed
  qed
qed

lemma second_requests_refused:
  assumes "addHeader (snd (args s c)) ''Authorization'' (Authorization s) = Inl e"
  shows "attempts c (foldl second_request s cs) = attempts c s"
    and "c \<in> set cs \<Longrightarrow> (c, Inl e) \<in> set (settled (foldl second_request s cs))"
proof -
  have mono: "set (settled s) \<subseteq> set (settled (foldl second_request s cs))" for s cs
  proof (induction cs arbitrary: s)
    case Nil
    show ?case by simp
  next
    case (Cons a cs)
    from second_request_cases[of s a]
    have "set (settled s) \<subseteq> set (settled (second_request s a))" by auto
    with Cons[of "second_request s a"] show ?case by auto
  qed
  have keep: "addHeader (snd (args (second_request s a) c)) ''Authorization''
      (Authorization (second_request s a)) = Inl e
      \<and> attempts c (second_request s a) = attempts c s"
    if "addHeader (snd (args s c)) ''Authorization'' (Authorization s) = Inl e" for s a
  proof (cases "a = c")
    case True
    from second_request_cases[of s c] that
    have "second_request s c = s\<lparr>settled := settled s @ [(c, Inl e)]\<rparr>" by auto
    with that True show ?thesis by (simp add: attempts_def)
  next
    case False
    with that attempts_second_request(2)[of c a s] show ?thesis
      by (simp add: second_request_keeps)
  qed
  from assms show "attempts c (foldl second_request s cs) = attempts c s"
  proof (induction cs arbitrary: s)
    case Nil
    show ?case by simp
  next
    case (Cons a cs)
    from keep[OF Cons.prems, of a] Cons.IH[of "second_request s a"] show ?case by simp
  qed
  assume "c \<in> set cs"
  then show "(c, Inl e) \<in> set (settled (foldl second_request s cs))"
    using assms
  proof (induction cs arbitrary: s)
    case Nil
    then show ?case by simp
  next
    case (Cons a cs)
    show ?case
    proof (cases "a = c")
      case True
      from second_request_cases[of s c] Cons.prems(2)
      have "(c, Inl e) \<in> set (settled (second_request s c))" by auto
      with mono[of "second_request s c" cs] True show ?thesis by auto
    next
      case False
      with Cons.prems(1) have "c \<in> set cs" by simp
      with keep[OF Cons.prems(2), of a] Cons.IH[of "second_request s a"] show ?thesis by simp
    qed
  qed
qed

text \<open>Every state that the closure reaches keeps \<open>attempts_inv\<close>.\<close>

lemma auth_fields:
  fixes s s' :: auth_state
  assumes "flight.more s' = flight.more s"
  shows "requests s' = requests s" "first_attempt s' = first_attempt s"
    "second_attempt s' = second_attempt s" "settled s' = settled s"
    "Authorization s' = Authorization s" "args s' = args s"
  using assms by (cases s, cases s', simp)+

lemma attempts_inv_filter:
  assumes "attempts_inv s" "requests s' = requests s" "waiting s' = filter P (waiting s)"
    "callers s' = callers s" "set (first_attempt s') \<subseteq> set (first_attempt s)"
  shows "attempts_inv s'"
proof -
  have a: "attempts c s' = attempts c s" for c
    using assms(2) by (simp add: attempts_def)
  from assms(1) have w: "\<forall>c \<in> fst ` set (waiting s). attempts c s \<le> 1 \<and> c < callers s"
    and f: "\<forall>c \<in> set (first_attempt s). attempts c s \<le> 1 \<and> c < callers s \<and> c \<notin> fst ` set (waiting s)"
    and t: "\<forall>c. attempts c s \<le> 2" and d: "distinct (map fst (waiting s))"
    and n: "\<forall>c. callers s \<le> c \<longrightarrow> attempts c s = 0"
    by (simp_all add: attempts_inv_def)
  have sub: "fst ` set (waiting s') \<subseteq> fst ` set (waiting s)"
    by (auto simp: assms(3))
  have 1: "\<forall>c. attempts c s' \<le> 2" using t by (simp add: a)
  have 2: "\<forall>c \<in> fst ` set (waiting s'). attempts c s' \<le> 1 \<and> c < callers s'"
  proof
    fix c assume "c \<in> fst ` set (waiting s')"
    with sub have "c \<in> fst ` set (waiting s)" by blast
    with w have "attempts c s \<le> 1 \<and> c < callers s" by blast
    then show "attempts c s' \<le> 1 \<and> c < callers s'" by (simp add: a assms(4))
  qed
  have 3: "distinct (map fst (waiting s'))"
    using d by (simp add: assms(3) distinct_map_filter)
  have 4: "\<forall>c. callers s' \<le> c \<longrightarrow> attempts c s' = 0"
    using n by (simp add: a assms(4))
  have 5: "\<forall>c \<in> set (first_attempt s').
      attempts c s' \<le> 1 \<and> c < callers s' \<and> c \<notin> fst ` set (waiting s')"
  proof
    fix c assume "c \<in> set (first_attempt s')"
    with assms(5) have "c \<in> set (first_attempt s)" by blast
    with f have "attempts c s \<le> 1 \<and> c < callers s \<and> c \<notin> fst ` set (waiting s)" by blast
    with sub show "attempts c s' \<le> 1 \<and> c < callers s' \<and> c \<notin> fst ` set (waiting s')"
      by (auto simp: a assms(4))
  qed
  from 1 2 3 4 5 show ?thesis unfolding attempts_inv_def by blast
qed

lemma attempts_inv_remove:
  assumes "attempts_inv s" "requests s' = requests s" "waiting s' = waiting s"
    "callers s' = callers s" "set (first_attempt s') \<subseteq> set (first_attempt s)"
  shows "attempts_inv s'"
  by (rule attempts_inv_filter[OF assms(1,2) _ assms(4,5), where P = "\<lambda>w. True"])
    (simp add: assms(3))

lemma attempts_inv_call:
  assumes "attempts_inv s"
  shows "attempts_inv (auth_call url init s)"
proof -
  let ?s' = "auth_call url init s"
  have a: "attempts c ?s' \<le> attempts c s + (if c = callers s then 1 else 0)" for c
    using auth_call_cases[where url = url and init = init and s = s]
    by (auto simp: attempts_def)
  have b: "attempts c ?s' = attempts c s" if "c \<noteq> callers s" for c
    using auth_call_cases[where url = url and init = init and s = s] that
    by (auto simp: attempts_def)
  have fs: "waiting ?s' = waiting s" "callers ?s' = callers s + 1"
    by (simp_all add: auth_call_flight)
  have fa: "set (first_attempt ?s') \<subseteq> set (first_attempt s) \<union> {callers s}"
    using auth_call_cases[where url = url and init = init and s = s] by auto
  from assms have z: "attempts (callers s) s = 0" by (simp add: attempts_inv_def)
  from assms have w: "\<forall>c \<in> fst ` set (waiting s). attempts c s \<le> 1 \<and> c < callers s"
    and f: "\<forall>c \<in> set (first_attempt s). attempts c s \<le> 1 \<and> c < callers s \<and> c \<notin> fst ` set (waiting s)"
    and t: "\<forall>c. attempts c s \<le> 2" and d: "distinct (map fst (waiting s))"
    and n: "\<forall>c. callers s \<le> c \<longrightarrow> attempts c s = 0"
    by (simp_all add: attempts_inv_def)
  have 1: "\<forall>c. attempts c ?s' \<le> 2"
  proof
    fix c
    show "attempts c ?s' \<le> 2"
    proof (cases "c = callers s")
      case True
      with a[of c] z show ?thesis by simp
    next
      case False
      with b[of c] t show ?thesis by simp
    qed
  qed
  have 2: "\<forall>c \<in> fst ` set (waiting ?s'). attempts c ?s' \<le> 1 \<and> c < callers ?s'"
  proof
    fix c assume "c \<in> fst ` set (waiting ?s')"
    then have "c \<in> fst ` set (waiting s)" by (simp only: fs)
    with w have c: "attempts c s \<le> 1 \<and> c < callers s" by blast
    then have "c \<noteq> callers s" by simp
    with b[of c] c show "attempts c ?s' \<le> 1 \<and> c < callers ?s'" by (simp add: fs)
  qed
  have 3: "distinct (map fst (waiting ?s'))"
    using d by (simp add: fs)
  have 4: "\<forall>c. callers ?s' \<le> c \<longrightarrow> attempts c ?s' = 0"
  proof (intro allI impI)
    fix c assume "callers ?s' \<le> c"
    then have c: "callers s \<le> c" "c \<noteq> callers s" by (simp_all add: fs)
    with n b[of c] show "attempts c ?s' = 0" by simp
  qed
  have 5: "\<forall>c \<in> set (first_attempt ?s').
      attempts c ?s' \<le> 1 \<and> c < callers ?s' \<and> c \<notin> fst ` set (waiting ?s')"
  proof
    fix c assume "c \<in> set (first_attempt ?s')"
    with fa consider "c \<in> set (first_attempt s)" | "c = callers s" by auto
    then show "attempts c ?s' \<le> 1 \<and> c < callers ?s' \<and> c \<notin> fst ` set (waiting ?s')"
    proof cases
      case 1
      with f have c: "attempts c s \<le> 1 \<and> c < callers s \<and> c \<notin> fst ` set (waiting s)" by blast
      then have "c \<noteq> callers s" by simp
      with b[of c] c show ?thesis by (simp add: fs)
    next
      case 2
      have "callers s \<notin> fst ` set (waiting s)" using w by blast
      with 2 z a[of c] show ?thesis by (simp add: fs)
    qed
  qed
  from 1 2 3 4 5 show ?thesis unfolding attempts_inv_def by blast
qed

lemma update_fields:
  "waiting (update c s) = waiting s \<or> (\<exists>r. waiting (update c s) = waiting s @ [(c, r)])"
  "callers (update c s) = callers s"
  "flight.more (update c s) = flight.more s"
  by (auto simp: update_def fetchWithRetry_start_def Let_def
      split: option.splits retry_phase.splits)

lemma attempts_inv_update:
  assumes "attempts_inv s" "c \<in> set (first_attempt s)"
  shows "attempts_inv (update c (s\<lparr>first_attempt := removeAll c (first_attempt s)\<rparr>))"
proof -
  let ?s1 = "s\<lparr>first_attempt := removeAll c (first_attempt s)\<rparr>"
  let ?s' = "update c ?s1"
  have u: "callers ?s' = callers s" by (simp add: update_fields)
  have rq: "requests ?s' = requests s" "first_attempt ?s' = removeAll c (first_attempt s)"
    using auth_fields[OF update_fields(3)[of c ?s1]] by simp_all
  from update_fields(1)[of c ?s1] show ?thesis
  proof
    assume "waiting ?s' = waiting ?s1"
    then have "waiting ?s' = waiting s" by simp
    then show ?thesis
      by (rule attempts_inv_remove[OF assms(1) rq(1) _ u]) (auto simp: rq(2))
  next
    assume "\<exists>r. waiting ?s' = waiting ?s1 @ [(c, r)]"
    then obtain r where wt: "waiting ?s' = waiting s @ [(c, r)]" by auto
    have a: "attempts c' ?s' = attempts c' s" for c'
      using rq by (simp add: attempts_def)
    from assms(1) have w: "\<forall>c \<in> fst ` set (waiting s). attempts c s \<le> 1 \<and> c < callers s"
      and f: "\<forall>c \<in> set (first_attempt s). attempts c s \<le> 1 \<and> c < callers s \<and> c \<notin> fst ` set (waiting s)"
      and t: "\<forall>c. attempts c s \<le> 2" and d: "distinct (map fst (waiting s))"
      and n: "\<forall>c. callers s \<le> c \<longrightarrow> attempts c s = 0"
      by (simp_all add: attempts_inv_def)
    have 1: "\<forall>c'. attempts c' ?s' \<le> 2" using t by (simp add: a)
    have 2: "\<forall>c' \<in> fst ` set (waiting ?s'). attempts c' ?s' \<le> 1 \<and> c' < callers ?s'"
      using w f assms(2) by (auto simp: a u wt)
    have 3: "distinct (map fst (waiting ?s'))"
      using d f assms(2) by (auto simp: wt)
    have 4: "\<forall>c'. callers ?s' \<le> c' \<longrightarrow> attempts c' ?s' = 0"
      using n by (simp add: a u)
    have 5: "\<forall>c' \<in> set (first_attempt ?s').
        attempts c' ?s' \<le> 1 \<and> c' < callers ?s' \<and> c' \<notin> fst ` set (waiting ?s')"
      using f by (auto simp: a u wt rq)
    from 1 2 3 4 5 show ?thesis unfolding attempts_inv_def by blast
  qed
qed

lemma attempts_inv_settle:
  assumes "attempts_inv s"
  shows "attempts_inv (auth_settle c out s)"
proof (cases "c \<in> set (first_attempt s)")
  case True
  let ?s1 = "s\<lparr>first_attempt := removeAll c (first_attempt s)\<rparr>"
  have i1: "attempts_inv ?s1"
    by (rule attempts_inv_remove[OF assms]) auto
  show ?thesis
  proof (cases out)
    case (Inl e)
    have "attempts_inv (?s1\<lparr>settled := settled ?s1 @ [(c, Inl e)]\<rparr>)"
      by (rule attempts_inv_remove[OF i1]) auto
    with True Inl show ?thesis by (simp add: auth_settle_def Let_def)
  next
    case (Inr r)
    show ?thesis
    proof (cases "status r \<in> set [401, 403]")
      case T: True
      with True Inr show ?thesis
        using attempts_inv_update[OF assms True] by (simp add: auth_settle_def Let_def)
    next
      case False
      have "attempts_inv (?s1\<lparr>settled := settled ?s1 @ [(c, Inr r)]\<rparr>)"
        by (rule attempts_inv_remove[OF i1]) auto
      with True Inr False show ?thesis by (simp add: auth_settle_def Let_def)
    qed
  qed
next
  case False
  show ?thesis
  proof (cases "c \<in> set (second_attempt s)")
    case True
    have "attempts_inv (s\<lparr>second_attempt := removeAll c (second_attempt s),
        settled := settled s @ [(c, out)]\<rparr>)"
      by (rule attempts_inv_remove[OF assms]) auto
    with False True show ?thesis by (simp add: auth_settle_def)
  next
    case F: False
    with False assms show ?thesis by (simp add: auth_settle_def)
  qed
qed

lemma attempts_inv_retry_step:
  assumes "attempts_inv s"
  shows "attempts_inv (retry_step ev s)"
proof -
  have k: "callers (retry_step ev s) = callers s" "flight.more (retry_step ev s) = flight.more s"
    using retry_step_keeps[of ev s] by simp_all
  from auth_fields[OF k(2)]
  have q: "requests (retry_step ev s) = requests s" "first_attempt (retry_step ev s) = first_attempt s"
    by simp_all
  from retry_step_waiting[of ev s] show ?thesis
  proof
    assume "waiting (retry_step ev s) = waiting s"
    then show ?thesis
      by (rule attempts_inv_remove[OF assms q(1) _ k(1)]) (simp add: q(2))
  next
    assume "\<exists>r. waiting (retry_step ev s) = filter (\<lambda>(c, r'). r' \<noteq> r) (waiting s)"
    then obtain r where "waiting (retry_step ev s) = filter (\<lambda>(c, r'). r' \<noteq> r) (waiting s)"
      by blast
    then show ?thesis
      by (rule attempts_inv_filter[OF assms q(1) _ k(1)]) (simp add: q(2))
  qed
qed

lemma attempts_inv_resume:
  assumes "attempts_inv s"
  shows "attempts_inv (fetchWithAuth_resume r v s)"
proof -
  let ?woken = "map fst (filter (\<lambda>(c, r'). r' = r) (waiting s))"
  let ?s1 = "s\<lparr>Authorization := v, promise := None,
      waiting := filter (\<lambda>(c, r'). r' \<noteq> r) (waiting s)\<rparr>"
  let ?s' = "fetchWithAuth_resume r v s"
  have e: "?s' = foldl second_request ?s1 ?woken"
    by (simp add: fetchWithAuth_resume_def Let_def)
  from assms have w: "\<forall>c \<in> fst ` set (waiting s). attempts c s \<le> 1 \<and> c < callers s"
    and f: "\<forall>c \<in> set (first_attempt s). attempts c s \<le> 1 \<and> c < callers s \<and> c \<notin> fst ` set (waiting s)"
    and t: "\<forall>c. attempts c s \<le> 2" and d: "distinct (map fst (waiting s))"
    and n: "\<forall>c. callers s \<le> c \<longrightarrow> attempts c s = 0"
    by (simp_all add: attempts_inv_def)
  have fs: "waiting ?s' = filter (\<lambda>(c, r'). r' \<noteq> r) (waiting s)" "callers ?s' = callers s"
    "first_attempt ?s' = first_attempt s"
    unfolding e using second_requests_keep[of ?s1 ?woken] by simp_all
  have dw: "distinct ?woken" using d by (simp add: distinct_map_filter)
  have sw: "set ?woken \<subseteq> fst ` set (waiting s)" by auto
  have a1: "attempts c ?s1 = attempts c s" for c by (simp add: attempts_def)
  have a: "attempts c ?s' \<le> attempts c s + (if c \<in> set ?woken then 1 else 0)" for c
    unfolding e using attempts_second_requests[OF dw, of c ?s1] by (simp only: a1)
  have b: "attempts c ?s' = attempts c s" if "c \<notin> set ?woken" for c
    unfolding e using attempts_second_requests_other[OF that, of ?s1] by (simp only: a1)
  have rest: "c \<notin> set ?woken" if "c \<in> fst ` set (waiting ?s')" for c
  proof
    assume "c \<in> set ?woken"
    then obtain r1 where 1: "(c, r1) \<in> set (waiting s)" "r1 = r" by auto
    from that obtain r2 where 2: "(c, r2) \<in> set (waiting s)" "r2 \<noteq> r" by (auto simp: fs)
    from d 1 2 show False by (meson eq_key_imp_eq_value)
  qed
  have 1: "\<forall>c. attempts c ?s' \<le> 2"
  proof
    fix c
    show "attempts c ?s' \<le> 2"
    proof (cases "c \<in> set ?woken")
      case True
      with sw w have l: "attempts c s \<le> 1" by blast
      from a[of c] True have "attempts c ?s' \<le> attempts c s + 1" by (simp only: if_True)
      with l show ?thesis by linarith
    next
      case False
      with t b[of c] show ?thesis by simp
    qed
  qed
  have 2: "\<forall>c \<in> fst ` set (waiting ?s'). attempts c ?s' \<le> 1 \<and> c < callers ?s'"
  proof
    fix c assume c: "c \<in> fst ` set (waiting ?s')"
    then have "c \<in> fst ` set (waiting s)" by (auto simp: fs)
    with w have "attempts c s \<le> 1 \<and> c < callers s" by blast
    with b[OF rest[OF c]] show "attempts c ?s' \<le> 1 \<and> c < callers ?s'"
      by (simp add: fs)
  qed
  have 3: "distinct (map fst (waiting ?s'))" using d by (simp add: fs distinct_map_filter)
  have 4: "\<forall>c. callers ?s' \<le> c \<longrightarrow> attempts c ?s' = 0"
  proof (intro allI impI)
    fix c assume c: "callers ?s' \<le> c"
    with w sw have "c \<notin> set ?woken" by (auto simp: fs)
    with n c b[of c] show "attempts c ?s' = 0" by (simp add: fs)
  qed
  have 5: "\<forall>c \<in> set (first_attempt ?s').
      attempts c ?s' \<le> 1 \<and> c < callers ?s' \<and> c \<notin> fst ` set (waiting ?s')"
  proof
    fix c assume "c \<in> set (first_attempt ?s')"
    with f have c: "attempts c s \<le> 1" "c < callers s" "c \<notin> fst ` set (waiting s)"
      by (auto simp: fs)
    with sw have "c \<notin> set ?woken" by blast
    with c b[of c]
    show "attempts c ?s' \<le> 1 \<and> c < callers ?s' \<and> c \<notin> fst ` set (waiting ?s')"
      by (auto simp: fs)
  qed
  from 1 2 3 4 5 show ?thesis unfolding attempts_inv_def by blast
qed

lemma attempts_inv_step:
  assumes "attempts_inv s"
  shows "attempts_inv (fetchWithAuth_step s ev)"
proof (cases ev)
  case (Call url init)
  with assms show ?thesis by (simp add: attempts_inv_call)
next
  case (Settles c out)
  with assms show ?thesis by (simp add: attempts_inv_settle)
next
  case (Token rev)
  have r: "attempts_inv (retry_step rev s)"
    by (rule attempts_inv_retry_step[OF assms])
  show ?thesis
  proof (cases "resolved rev s")
    case None
    with r Token show ?thesis by (simp del: retry_step.simps resolved.simps)
  next
    case (Some rv)
    obtain r0 v where "rv = (r0, v)" by (cases rv)
    with Some Token attempts_inv_resume[OF r, of r0 v] show ?thesis
      by (simp del: retry_step.simps resolved.simps)
  qed
qed

lemma attempts_inv_run:
  "attempts_inv s \<Longrightarrow> attempts_inv (fetchWithAuth_run evs s)"
  unfolding fetchWithAuth_run_def
  by (induction evs arbitrary: s) (simp_all add: attempts_inv_step del: fetchWithAuth_step.simps)

lemma attempts_inv_fetchWithAuth: "attempts_inv fetchWithAuth"
  by (simp add: attempts_inv_def attempts_def fetchWithAuth_def)

text \<open>Every state that the closure reaches keeps \<open>single_flight\<close>.\<close>

lemma single_flight_fetchWithAuth_step:
  assumes "single_flight s"
  shows "single_flight (fetchWithAuth_step s ev)"
proof (cases ev)
  case (Call url init)
  have "single_flight (auth_call url init s) = single_flight s"
    by (rule single_flight_frame) (simp_all add: auth_call_flight)
  with assms Call show ?thesis by simp
next
  case (Settles c out)
  let ?s1 = "s\<lparr>first_attempt := removeAll c (first_attempt s)\<rparr>"
  have "single_flight ?s1 = single_flight s"
    by (rule single_flight_frame) simp_all
  with assms have s1: "single_flight ?s1" by simp
  have u: "single_flight (update c ?s1)"
    by (rule single_flight_update[OF s1])
  have f: "single_flight (?s1\<lparr>settled := settled ?s1 @ [(c, o1)]\<rparr>)" for o1
  proof -
    have "single_flight (?s1\<lparr>settled := settled ?s1 @ [(c, o1)]\<rparr>) = single_flight s"
      by (rule single_flight_frame) simp_all
    with assms show ?thesis by simp
  qed
  have g: "single_flight (s\<lparr>second_attempt := removeAll c (second_attempt s),
      settled := settled s @ [(c, out)]\<rparr>)"
  proof -
    have "single_flight (s\<lparr>second_attempt := removeAll c (second_attempt s),
      settled := settled s @ [(c, out)]\<rparr>) = single_flight s"
      by (rule single_flight_frame) simp_all
    with assms show ?thesis by simp
  qed
  show ?thesis
    unfolding Settles fetchWithAuth_step.simps auth_settle_def Let_def
    using assms u f g by (simp split: sum.splits)
next
  case (Token rev)
  show ?thesis
  proof (cases "resolved rev s")
    case None
    with assms Token show ?thesis by (simp add: single_flight_retry_step del: retry_step.simps)
  next
    case (Some rv)
    obtain r v where rv: "rv = (r, v)" by (cases rv)
    from single_flight_resolved[OF assms Some[unfolded rv]] obtain i where
      p: "promise s = Some r" and r: "runs s = [(r, AwaitFun i)]"
      and w: "list_all (\<lambda>w. snd w = r) (waiting s)" by blast
    from resolved_Some[OF Some[unfolded rv]] have ev: "rev = FunResolves r v" by simp
    have "fetchWithAuth_step s ev = fetchWithAuth_resume r v (s\<lparr>runs := []\<rparr>)"
      unfolding Token ev by (rule fetchWithAuth_step_resolves[OF r])
    then show ?thesis using filter_waiting_none[OF w]
      by (simp add: fetchWithAuth_resume_def Let_def single_flight_idle second_requests_keep)
  qed
qed

lemma single_flight_fetchWithAuth_run:
  "single_flight s \<Longrightarrow> single_flight (fetchWithAuth_run evs s)"
  unfolding fetchWithAuth_run_def
  by (induction evs arbitrary: s)
    (simp_all add: single_flight_fetchWithAuth_step del: fetchWithAuth_step.simps)

lemma single_flight_fetchWithAuth: "single_flight fetchWithAuth"
  by (simp add: single_flight_def fetchWithAuth_def)


text \<open>
  Calls, settled requests and failures of the token operation that are logged, in
  any order, while the refresh has not ended: at most one refresh is started, and a
  caller that waits keeps waiting.
\<close>

lemma invoked_fire [simp]: "invoked (fire h rt) = invoked rt"
  by (cases h) simp_all

lemma retry_step_idle: "runs s = [] \<Longrightarrow> retry_step ev s = s"
  by (cases ev) simp_all

lemma retry_step_refreshing:
  assumes "refreshing s0 s" "\<not> ends_run ev"
  shows "refreshing s0 (retry_step ev s)"
proof -
  from assms(1) obtain ph where ph: "runs s = [(started s0, ph)]"
    and am: "attempts_made ph (host s0) (host s)"
    and p: "promise s = Some (started s0)" "started s = started s0 + 1"
      "list_all (\<lambda>w. snd w = started s0) (waiting s)"
    by (auto simp: refreshing_def)
  have k: "promise (retry_step ev s) = Some (started s0)" "started (retry_step ev s) = started s0 + 1"
    "list_all (\<lambda>w. snd w = started s0) (waiting (retry_step ev s))"
    using retry_step_keeps[of ev s] retry_step_pending[OF assms(2), of s] p by simp_all
  have "\<exists>ph'. runs (retry_step ev s) = [(started s0, ph')]
      \<and> attempts_made ph' (host s0) (host (retry_step ev s))"
    using assms(2) ph am
    by (cases ev; cases ph)
      (auto simp: catch_block_Printable setTimeout_def set_phase_def fetchWithRetry_start_def
        default_interval_def elim!: ends_run.elims)
  with k show ?thesis by (simp add: refreshing_def)
qed

lemma update_refreshing:
  assumes "unchanged s0 s \<or> refreshing s0 s"
  shows "refreshing s0 (update c s) \<and> set (waiting s) \<subseteq> set (waiting (update c s))
     \<and> (c, started s0) \<in> set (waiting (update c s))"
proof (cases "promise s")
  case None
  with assms have u: "unchanged s0 s" by (auto simp: refreshing_def)
  then show ?thesis
    by (simp add: update_start[OF None] unchanged_def refreshing_def)
next
  case (Some r)
  with assms have u: "refreshing s0 s" by (auto simp: unchanged_def)
  then obtain ph where ph: "runs s = [(started s0, ph)]" "attempts_made ph (host s0) (host s)"
    and r: "r = started s0"
    using Some by (auto simp: refreshing_def)
  have nr: "\<forall>x. ph \<noteq> Rejected x" using ph(2) by auto
  have "update c s = s\<lparr>waiting := waiting s @ [(c, r)]\<rparr>"
    by (rule update_join[OF Some _ nr]) (simp add: ph r)
  with u r show ?thesis
    by (auto simp: refreshing_def)
qed

lemma auth_settle_cases:
  "(promise (auth_settle c out s) = promise s \<and> runs (auth_settle c out s) = runs s
     \<and> started (auth_settle c out s) = started s \<and> waiting (auth_settle c out s) = waiting s
     \<and> host (auth_settle c out s) = host s)
   \<or> (\<exists>r. c \<in> set (first_attempt s) \<and> out = Inr r \<and> (status r = 401 \<or> status r = 403)
        \<and> auth_settle c out s = update c (s\<lparr>first_attempt := removeAll c (first_attempt s)\<rparr>))"
  by (cases out) (auto simp: auth_settle_def Let_def)

lemma step_refreshing:
  assumes "unchanged s0 s \<or> refreshing s0 s" "\<not> ends_refresh ev"
  shows "(unchanged s0 (fetchWithAuth_step s ev) \<or> refreshing s0 (fetchWithAuth_step s ev))
     \<and> set (waiting s) \<subseteq> set (waiting (fetchWithAuth_step s ev))"
proof (cases ev)
  case (Call url init)
  have "unchanged s0 (auth_call url init s) = unchanged s0 s"
    "refreshing s0 (auth_call url init s) = refreshing s0 s"
    by (simp_all add: unchanged_def refreshing_def auth_call_flight)
  with assms(1) show ?thesis
    unfolding Call fetchWithAuth_step.simps by (simp add: auth_call_flight)
next
  case (Settles c out)
  from auth_settle_cases[of c out s] show ?thesis
  proof
    assume f: "promise (auth_settle c out s) = promise s \<and> runs (auth_settle c out s) = runs s
     \<and> started (auth_settle c out s) = started s \<and> waiting (auth_settle c out s) = waiting s
     \<and> host (auth_settle c out s) = host s"
    then have "unchanged s0 (auth_settle c out s) = unchanged s0 s"
      "refreshing s0 (auth_settle c out s) = refreshing s0 s"
      by (simp_all add: unchanged_def refreshing_def)
    with assms(1) f show ?thesis unfolding Settles fetchWithAuth_step.simps by simp
  next
    assume "\<exists>r. c \<in> set (first_attempt s) \<and> out = Inr r \<and> (status r = 401 \<or> status r = 403)
        \<and> auth_settle c out s = update c (s\<lparr>first_attempt := removeAll c (first_attempt s)\<rparr>)"
    then have e: "auth_settle c out s = update c (s\<lparr>first_attempt := removeAll c (first_attempt s)\<rparr>)"
      by blast
    let ?s1 = "s\<lparr>first_attempt := removeAll c (first_attempt s)\<rparr>"
    have "unchanged s0 ?s1 = unchanged s0 s" "refreshing s0 ?s1 = refreshing s0 s"
      by (simp_all add: unchanged_def refreshing_def)
    with assms(1) have "unchanged s0 ?s1 \<or> refreshing s0 ?s1" by simp
    from update_refreshing[OF this, of c] show ?thesis
      unfolding Settles fetchWithAuth_step.simps e by simp
  qed
next
  case (Token rev)
  with assms(2) have ne: "\<not> ends_run rev" by simp
  then have "resolved rev s = None" by (cases rev) simp_all
  then have st: "fetchWithAuth_step s ev = retry_step rev s"
    unfolding Token by (simp del: retry_step.simps)
  from assms(1) show ?thesis
  proof
    assume u: "unchanged s0 s"
    then have "retry_step rev s = s" by (simp add: retry_step_idle unchanged_def)
    with u st show ?thesis by simp
  next
    assume r: "refreshing s0 s"
    from retry_step_refreshing[OF r ne] retry_step_pending[OF ne, of s] st
    show ?thesis by simp
  qed
qed

lemma run_refreshing:
  assumes "unchanged s0 s \<or> refreshing s0 s" "\<forall>ev \<in> set evs. \<not> ends_refresh ev"
  shows "(unchanged s0 (fetchWithAuth_run evs s) \<or> refreshing s0 (fetchWithAuth_run evs s))
     \<and> set (waiting s) \<subseteq> set (waiting (fetchWithAuth_run evs s))"
  using assms
proof (induction evs arbitrary: s)
  case Nil
  then show ?case by (simp add: fetchWithAuth_run_def)
next
  case (Cons ev evs)
  have n: "\<not> ends_refresh ev" using Cons.prems(2) by simp
  from step_refreshing[OF Cons.prems(1) n]
  have a: "unchanged s0 (fetchWithAuth_step s ev) \<or> refreshing s0 (fetchWithAuth_step s ev)"
    and b: "set (waiting s) \<subseteq> set (waiting (fetchWithAuth_step s ev))" by simp_all
  have r: "\<forall>ev \<in> set evs. \<not> ends_refresh ev" using Cons.prems(2) by simp
  from Cons.IH[OF a r] b show ?case
    by (auto simp: fetchWithAuth_run_def)
qed

lemma refused_refreshing:
  assumes "unchanged s0 s \<or> refreshing s0 s" "c \<in> set (first_attempt s)"
    "status r = 401 \<or> status r = 403"
  shows "refreshing s0 (fetchWithAuth_step s (Settles c (Inr r)))
     \<and> (c, started s0) \<in> set (waiting (fetchWithAuth_step s (Settles c (Inr r))))"
proof -
  let ?s1 = "s\<lparr>first_attempt := removeAll c (first_attempt s)\<rparr>"
  have "unchanged s0 ?s1 = unchanged s0 s" "refreshing s0 ?s1 = refreshing s0 s"
    by (simp_all add: unchanged_def refreshing_def)
  with assms(1) have "unchanged s0 ?s1 \<or> refreshing s0 ?s1" by simp
  from update_refreshing[OF this, of c] show ?thesis
    by (simp add: auth_settle_refused[OF assms(2,3)])
qed

lemma filter_waiting_same:
  "list_all (\<lambda>w. snd w = r) ws \<Longrightarrow> filter (\<lambda>(c, r'). r' = r) ws = ws"
  by (induction ws) auto

text \<open>
  The pending invocation of the token operation resolves: the refresh ends, and the
  callers that waited for it are resumed in their order.
\<close>

lemma refresh_ends:
  assumes "refreshing s0 s2"
    and "resolved (FunResolves (started s0) tok) s2 = Some (started s0, tok)"
    and "s3 = fetchWithAuth_step s2 (Token (FunResolves (started s0) tok))"
  shows "runs s2 = [(started s0, AwaitFun 5)]"
    and "invoked (host s2) + length (scheduled (host s0)) =
           invoked (host s0) + 1 + length (scheduled (host s2))"
    and "s3 = foldl second_request
           (s2\<lparr>runs := [], Authorization := tok, promise := None, waiting := []\<rparr>)
           (map fst (waiting s2))"
proof -
  from assms(1) obtain ph where ph: "runs s2 = [(started s0, ph)]"
    and am: "attempts_made ph (host s0) (host s2)"
    and w: "list_all (\<lambda>w. snd w = started s0) (waiting s2)"
    by (auto simp: refreshing_def)
  from assms(2) ph obtain i where i: "ph = AwaitFun i" by (cases ph) simp_all
  from am i show r: "runs s2 = [(started s0, AwaitFun 5)]" using ph by simp
  from am i show "invoked (host s2) + length (scheduled (host s0)) =
      invoked (host s0) + 1 + length (scheduled (host s2))" by simp
  have "s3 = fetchWithAuth_resume (started s0) tok (s2\<lparr>runs := []\<rparr>)"
    unfolding assms(3) by (rule fetchWithAuth_step_resolves[OF r])
  then show "s3 = foldl second_request
           (s2\<lparr>runs := [], Authorization := tok, promise := None, waiting := []\<rparr>)
           (map fst (waiting s2))"
    using filter_waiting_none[OF w] filter_waiting_same[OF w]
    by (simp add: fetchWithAuth_resume_def Let_def)
qed

text \<open>
  A refresh that rejects: the call that waited for it rejects with the exception
  and makes no second request, and so does a later call that is refused.
\<close>

lemma fetchWithAuth_rejected_refresh:
  "thrown (fetchWithAuth_run
      [Call ''a'' None, Settles 0 (Inr \<lparr>status = 401, payload = []\<rparr>),
       Token (FunRejects 0 (Uninspectable (Printable (Error ''boom'')))),
       Call ''b'' None, Settles 1 (Inr \<lparr>status = 401, payload = []\<rparr>)] fetchWithAuth)
     = [(0, Printable (Error ''boom'')), (1, Printable (Error ''boom''))]
   \<and> map fst (requests (fetchWithAuth_run
      [Call ''a'' None, Settles 0 (Inr \<lparr>status = 401, payload = []\<rparr>),
       Token (FunRejects 0 (Uninspectable (Printable (Error ''boom'')))),
       Call ''b'' None, Settles 1 (Inr \<lparr>status = 401, payload = []\<rparr>)] fetchWithAuth))
     = [0, 1]
   \<and> started (fetchWithAuth_run
      [Call ''a'' None, Settles 0 (Inr \<lparr>status = 401, payload = []\<rparr>),
       Token (FunRejects 0 (Uninspectable (Printable (Error ''boom'')))),
       Call ''b'' None, Settles 1 (Inr \<lparr>status = 401, payload = []\<rparr>)] fetchWithAuth) = 1"
  by (simp add: fetchWithAuth_run_def fetchWithAuth_def auth_call_def auth_settle_def update_def
      fetchWithRetry_start_def authorized_def Let_def addHeader_None header_value_char_def
      set_phase_def runtime0_def default_interval_def reject_run_def)

text \<open>
  Claim C2. At most one call of \<^verbatim>\<open>fetchWithRetry\<close> is pending in any state that the
  closure of \<^verbatim>\<open>fetchWithAuth\<close> reaches. Let no refresh be pending, and let calls be
  made, requests settle and the token operation fail (with errors that are logged)
  and be invoked again, in any order (\<open>evs\<close>), while the refresh has not ended. When
  the first response of a caller \<open>c\<close> among them has status 401 or 403, one call of
  \<^verbatim>\<open>fetchWithRetry\<close> has been started, and every caller suspended in
  \<^verbatim>\<open>await update()\<close>, \<open>c\<close> among them, waits for that call. When the pending
  invocation of the token operation then resolves with \<open>tok\<close>, the operation has
  been invoked once and once more for every timer of the refresh, and \<open>c\<close> is
  resumed with \<open>tok\<close>: where \<^verbatim>\<open>addHeader\<close> returns, \<open>c\<close> has repeated its request with
  \<open>tok\<close> in the \<^verbatim>\<open>Authorization\<close> header; where \<^verbatim>\<open>addHeader\<close> throws (\<open>tok\<close> is no legal
  header value), the call of \<open>c\<close> has rejected with that exception and \<open>c\<close> has made
  no further request.
\<close>

theorem fetchWithAuth_single_flight:
  assumes "promise s = None" "runs s = []" "waiting s = []"
    and "evs = evs1 @ Settles c (Inr r) # evs2"
    and "\<forall>ev \<in> set evs. \<not> ends_refresh ev"
    and "c \<in> set (first_attempt (fetchWithAuth_run evs1 s))"
    and "status r = 401 \<or> status r = 403"
    and "s2 = fetchWithAuth_run evs s"
    and "resolved (FunResolves (started s) tok) s2 = Some (started s, tok)"
    and "s3 = fetchWithAuth_step s2 (Token (FunResolves (started s) tok))"
  shows "(\<forall>es. length (runs (fetchWithAuth_run es fetchWithAuth)) \<le> 1)
     \<and> started s2 = started s + 1 \<and> promise s2 = Some (started s)
     \<and> runs s2 = [(started s, AwaitFun 5)]
     \<and> list_all (\<lambda>w. snd w = started s) (waiting s2) \<and> (c, started s) \<in> set (waiting s2)
     \<and> invoked (host s2) + length (scheduled (host s)) =
         invoked (host s) + 1 + length (scheduled (host s2))
     \<and> started s3 = started s + 1 \<and> host s3 = host s2
     \<and> Authorization s3 = tok \<and> promise s3 = None \<and> runs s3 = []
     \<and> (\<forall>i. addHeader (snd (args s2 c)) ''Authorization'' tok = Inr i \<longrightarrow>
           (c, fst (args s2 c), i) \<in> set (requests s3)
           \<and> Headers_get ''Authorization'' (headers i) = Some tok
           \<and> c \<in> set (second_attempt s3))
     \<and> (\<forall>err. addHeader (snd (args s2 c)) ''Authorization'' tok = Inl err \<longrightarrow>
           (c, Inl err) \<in> set (settled s3) \<and> attempts c s3 = attempts c s2)"
proof -
  have inv: "\<forall>es. length (runs (fetchWithAuth_run es fetchWithAuth)) \<le> 1"
    using single_flight_runs[OF single_flight_fetchWithAuth_run[OF single_flight_fetchWithAuth]]
    by blast
  have u: "unchanged s s \<or> refreshing s s"
    using assms(1-3) by (simp add: unchanged_def)
  have n1: "\<forall>ev \<in> set evs1. \<not> ends_refresh ev"
    and n2: "\<forall>ev \<in> set evs2. \<not> ends_refresh ev"
    using assms(4,5) by auto
  let ?a = "fetchWithAuth_run evs1 s"
  let ?b = "fetchWithAuth_step ?a (Settles c (Inr r))"
  from run_refreshing[OF u n1] have a: "unchanged s ?a \<or> refreshing s ?a" by simp
  from refused_refreshing[OF a assms(6,7)]
  have b: "refreshing s ?b" and wb: "(c, started s) \<in> set (waiting ?b)" by simp_all
  have e: "s2 = fetchWithAuth_run evs2 ?b"
    unfolding assms(8) assms(4) by (simp add: fetchWithAuth_run_def)
  from run_refreshing[OF disjI2[OF b] n2] e
  have c2: "unchanged s s2 \<or> refreshing s s2" and sub: "set (waiting ?b) \<subseteq> set (waiting s2)"
    by simp_all
  from sub wb have w2: "(c, started s) \<in> set (waiting s2)" by blast
  then have "waiting s2 \<noteq> []" by auto
  with c2 have r2: "refreshing s s2" by (auto simp: unchanged_def)
  from w2 have cw: "c \<in> set (map fst (waiting s2))" by force
  let ?s = "s2\<lparr>runs := [], Authorization := tok, promise := None, waiting := []\<rparr>"
  let ?cs = "map fst (waiting s2)"
  from refresh_ends[OF r2 assms(9,10)]
  have g: "runs s2 = [(started s, AwaitFun 5)]"
    "invoked (host s2) + length (scheduled (host s)) =
       invoked (host s) + 1 + length (scheduled (host s2))"
    and e3: "s3 = foldl second_request ?s ?cs"
    by simp_all
  from r2 have g2: "started s2 = started s + 1" "promise s2 = Some (started s)"
    "list_all (\<lambda>w. snd w = started s) (waiting s2)"
    by (simp_all add: refreshing_def)
  from second_requests_keep[of ?s ?cs]
  have f3: "started s3 = started s + 1" "host s3 = host s2" "Authorization s3 = tok"
    "promise s3 = None" "runs s3 = []"
    unfolding e3 using g2(1) by simp_all
  have ok: "(c, fst (args s2 c), i) \<in> set (requests s3)
      \<and> Headers_get ''Authorization'' (headers i) = Some tok \<and> c \<in> set (second_attempt s3)"
    if "addHeader (snd (args s2 c)) ''Authorization'' tok = Inr i" for i
  proof -
    have "addHeader (snd (args ?s c)) ''Authorization'' (Authorization ?s) = Inr i"
      using that by simp
    from second_requests_made[OF cw this] Headers_get_addHeader[OF that]
    show ?thesis unfolding e3 by simp
  qed
  have no: "(c, Inl err) \<in> set (settled s3) \<and> attempts c s3 = attempts c s2"
    if "addHeader (snd (args s2 c)) ''Authorization'' tok = Inl err" for err
  proof -
    have h: "addHeader (snd (args ?s c)) ''Authorization'' (Authorization ?s) = Inl err"
      using that by simp
    have "attempts c ?s = attempts c s2" by (simp add: attempts_def)
    with second_requests_refused(1)[OF h, of ?cs] second_requests_refused(2)[OF h cw]
    show ?thesis unfolding e3 by simp
  qed
  from inv g2 g w2 f3 ok no show ?thesis by blast
qed


lemmas auth_eval = fetchWithAuth_run_def fetchWithAuth_def auth_call_def auth_settle_def update_def
  fetchWithRetry_start_def authorized_def Let_def addHeader_None header_value_char_def
  catch_block_def setTimeout_def set_phase_def runtime0_def default_interval_def
  fetchWithAuth_resume_def second_request_def reject_run_def

theorem fetchWithAuth_single_flight_witness:
  "promise fetchWithAuth = None \<and> runs fetchWithAuth = [] \<and> waiting fetchWithAuth = []
   \<and> 1 \<in> set (first_attempt (fetchWithAuth_run
        [Call ''a'' None, Call ''b'' None, Settles 0 (Inr \<lparr>status = 401, payload = []\<rparr>),
         Token (FunRejects 0 (Printable (Error ''down'')))]
        fetchWithAuth))
   \<and> resolved (FunResolves (started fetchWithAuth) ''tok'')
      (fetchWithAuth_run
        [Call ''a'' None, Call ''b'' None, Settles 0 (Inr \<lparr>status = 401, payload = []\<rparr>),
         Token (FunRejects 0 (Printable (Error ''down''))),
         Settles 1 (Inr \<lparr>status = 403, payload = []\<rparr>), Token (TimerFires 0)]
        fetchWithAuth) = Some (started fetchWithAuth, ''tok'')
   \<and> addHeader (snd (args
      (fetchWithAuth_run
        [Call ''a'' None, Call ''b'' None, Settles 0 (Inr \<lparr>status = 401, payload = []\<rparr>),
         Token (FunRejects 0 (Printable (Error ''down''))),
         Settles 1 (Inr \<lparr>status = 403, payload = []\<rparr>), Token (TimerFires 0)]
        fetchWithAuth) 1)) ''Authorization'' ''tok'' = Inr (empty_init\<lparr>headers := [(''authorization'', ''tok'')]\<rparr>)
   \<and> started
      (fetchWithAuth_step
      (fetchWithAuth_run
        [Call ''a'' None, Call ''b'' None, Settles 0 (Inr \<lparr>status = 401, payload = []\<rparr>),
         Token (FunRejects 0 (Printable (Error ''down''))),
         Settles 1 (Inr \<lparr>status = 403, payload = []\<rparr>), Token (TimerFires 0)]
        fetchWithAuth)
      (Token (FunResolves (started fetchWithAuth) ''tok''))) = started fetchWithAuth + 1
   \<and> invoked (host
      (fetchWithAuth_run
        [Call ''a'' None, Call ''b'' None, Settles 0 (Inr \<lparr>status = 401, payload = []\<rparr>),
         Token (FunRejects 0 (Printable (Error ''down''))),
         Settles 1 (Inr \<lparr>status = 403, payload = []\<rparr>), Token (TimerFires 0)]
        fetchWithAuth)) + length (scheduled (host fetchWithAuth)) =
       invoked (host fetchWithAuth) + 1 + length (scheduled (host
      (fetchWithAuth_run
        [Call ''a'' None, Call ''b'' None, Settles 0 (Inr \<lparr>status = 401, payload = []\<rparr>),
         Token (FunRejects 0 (Printable (Error ''down''))),
         Settles 1 (Inr \<lparr>status = 403, payload = []\<rparr>), Token (TimerFires 0)]
        fetchWithAuth)))
   \<and> (1, fst (args
      (fetchWithAuth_run
        [Call ''a'' None, Call ''b'' None, Settles 0 (Inr \<lparr>status = 401, payload = []\<rparr>),
         Token (FunRejects 0 (Printable (Error ''down''))),
         Settles 1 (Inr \<lparr>status = 403, payload = []\<rparr>), Token (TimerFires 0)]
        fetchWithAuth) 1), empty_init\<lparr>headers := [(''authorization'', ''tok'')]\<rparr>) \<in> set (requests
      (fetchWithAuth_step
      (fetchWithAuth_run
        [Call ''a'' None, Call ''b'' None, Settles 0 (Inr \<lparr>status = 401, payload = []\<rparr>),
         Token (FunRejects 0 (Printable (Error ''down''))),
         Settles 1 (Inr \<lparr>status = 403, payload = []\<rparr>), Token (TimerFires 0)]
        fetchWithAuth)
      (Token (FunResolves (started fetchWithAuth) ''tok''))))
   \<and> 1 \<in> set (second_attempt
      (fetchWithAuth_step
      (fetchWithAuth_run
        [Call ''a'' None, Call ''b'' None, Settles 0 (Inr \<lparr>status = 401, payload = []\<rparr>),
         Token (FunRejects 0 (Printable (Error ''down''))),
         Settles 1 (Inr \<lparr>status = 403, payload = []\<rparr>), Token (TimerFires 0)]
        fetchWithAuth)
      (Token (FunResolves (started fetchWithAuth) ''tok''))))"
proof -
  let ?evs1 = "[Call ''a'' None, Call ''b'' None, Settles 0 (Inr \<lparr>status = 401, payload = []\<rparr>),
         Token (FunRejects 0 (Printable (Error ''down'')))]"
  let ?evs = "[Call ''a'' None, Call ''b'' None, Settles 0 (Inr \<lparr>status = 401, payload = []\<rparr>),
         Token (FunRejects 0 (Printable (Error ''down''))),
         Settles 1 (Inr \<lparr>status = 403, payload = []\<rparr>), Token (TimerFires 0)]"
  let ?s2 = "fetchWithAuth_run ?evs fetchWithAuth"
  let ?s3 = "fetchWithAuth_step ?s2 (Token (FunResolves (started fetchWithAuth) ''tok''))"
  have i: "promise fetchWithAuth = None" "runs fetchWithAuth = []" "waiting fetchWithAuth = []"
    by (simp_all add: fetchWithAuth_def)
  have sp: "?evs = ?evs1 @ Settles 1 (Inr \<lparr>status = 403, payload = []\<rparr>) # [Token (TimerFires 0)]"
    by simp
  have n: "\<forall>ev \<in> set ?evs. \<not> ends_refresh ev"
    by simp
  have f: "1 \<in> set (first_attempt (fetchWithAuth_run ?evs1 fetchWithAuth))"
    by (simp add: auth_eval)
  have st: "status \<lparr>status = 403, payload = []\<rparr> = 401 \<or> status \<lparr>status = 403, payload = []\<rparr> = 403"
    by simp
  have rs: "resolved (FunResolves (started fetchWithAuth) ''tok'') ?s2
      = Some (started fetchWithAuth, ''tok'')"
    by (simp add: auth_eval)
  have ah: "addHeader (snd (args ?s2 1)) ''Authorization'' ''tok'' = Inr (empty_init\<lparr>headers := [(''authorization'', ''tok'')]\<rparr>)"
    by (simp add: auth_eval)
  note t = fetchWithAuth_single_flight[OF i sp n f st refl rs refl]
  from t ah have c: "started ?s3 = started fetchWithAuth + 1
      \<and> invoked (host ?s2) + length (scheduled (host fetchWithAuth)) =
          invoked (host fetchWithAuth) + 1 + length (scheduled (host ?s2))
      \<and> (1, fst (args ?s2 1), empty_init\<lparr>headers := [(''authorization'', ''tok'')]\<rparr>) \<in> set (requests ?s3)
      \<and> 1 \<in> set (second_attempt ?s3)"
    by blast
  from i f rs ah c show ?thesis by blast
qed

text \<open>
  Two overlapping calls whose first responses are both 401, the second arriving
  after the refresh that the first one started has ended: two refreshes are started
  and the token operation is invoked twice. One call and a token operation that
  fails once: the token operation is invoked twice. One call and a token with a
  line feed: \<^verbatim>\<open>addHeader\<close> throws, the call rejects and its request is not repeated.
\<close>

theorem fetchWithAuth_single_flight_counterexample:
  "invoked (host (fetchWithAuth_run
      [Call ''a'' None, Call ''b'' None,
       Settles 0 (Inr \<lparr>status = 401, payload = []\<rparr>), Token (FunResolves 0 ''tok1''),
       Settles 1 (Inr \<lparr>status = 401, payload = []\<rparr>), Token (FunResolves 1 ''tok2'')]
      fetchWithAuth)) = 2
   \<and> started (fetchWithAuth_run
      [Call ''a'' None, Call ''b'' None,
       Settles 0 (Inr \<lparr>status = 401, payload = []\<rparr>), Token (FunResolves 0 ''tok1''),
       Settles 1 (Inr \<lparr>status = 401, payload = []\<rparr>), Token (FunResolves 1 ''tok2'')]
      fetchWithAuth) = 2
   \<and> invoked (host (fetchWithAuth_run
      [Call ''a'' None, Settles 0 (Inr \<lparr>status = 401, payload = []\<rparr>),
       Token (FunRejects 0 (Printable (Error ''down''))), Token (TimerFires 0),
       Token (FunResolves 0 ''tok'')]
      fetchWithAuth)) = 2
   \<and> attempts 0 (fetchWithAuth_run
      [Call ''a'' None, Settles 0 (Inr \<lparr>status = 401, payload = []\<rparr>),
       Token (FunResolves 0 (''to'' @ [CHR 0x0A] @ ''k''))]
      fetchWithAuth) = 1
   \<and> settled (fetchWithAuth_run
      [Call ''a'' None, Settles 0 (Inr \<lparr>status = 401, payload = []\<rparr>),
       Token (FunResolves 0 (''to'' @ [CHR 0x0A] @ ''k''))]
      fetchWithAuth) = [(0, Inl (TypeError ''Invalid character in header content''))]"
  by (simp add: auth_eval attempts_def)

text \<open>
  Claim C4. In every state that the closure of \<^verbatim>\<open>fetchWithAuth\<close> reaches, every
  caller has made at most two requests. When the second request of a caller
  settles, the call settles with that outcome, whatever its status; nothing else
  changes, so no refresh is started and no request is made.
\<close>

theorem fetchWithAuth_at_most_two_attempts:
  "(\<forall>evs c. attempts c (fetchWithAuth_run evs fetchWithAuth) \<le> 2)
   \<and> (c \<notin> set (first_attempt s) \<and> c \<in> set (second_attempt s) \<longrightarrow>
        fetchWithAuth_step s (Settles c out) =
          s\<lparr>second_attempt := removeAll c (second_attempt s), settled := settled s @ [(c, out)]\<rparr>)"
proof -
  have "attempts c (fetchWithAuth_run evs fetchWithAuth) \<le> 2" for evs c
    using attempts_inv_run[OF attempts_inv_fetchWithAuth, of evs]
    by (simp add: attempts_inv_def)
  then show ?thesis by (simp add: auth_settle_second)
qed

theorem fetchWithAuth_at_most_two_attempts_witness:
  "0 \<notin> set (first_attempt (fetchWithAuth_run
       [Call ''a'' None, Settles 0 (Inr \<lparr>status = 401, payload = []\<rparr>),
        Token (FunResolves 0 ''tok'')] fetchWithAuth))
   \<and> 0 \<in> set (second_attempt (fetchWithAuth_run
       [Call ''a'' None, Settles 0 (Inr \<lparr>status = 401, payload = []\<rparr>),
        Token (FunResolves 0 ''tok'')] fetchWithAuth))
   \<and> settled (fetchWithAuth_step (fetchWithAuth_run
       [Call ''a'' None, Settles 0 (Inr \<lparr>status = 401, payload = []\<rparr>),
        Token (FunResolves 0 ''tok'')] fetchWithAuth)
       (Settles 0 (Inr \<lparr>status = 403, payload = []\<rparr>)))
     = [(0, Inr \<lparr>status = 403, payload = []\<rparr>)]
   \<and> started (fetchWithAuth_step (fetchWithAuth_run
       [Call ''a'' None, Settles 0 (Inr \<lparr>status = 401, payload = []\<rparr>),
        Token (FunResolves 0 ''tok'')] fetchWithAuth)
       (Settles 0 (Inr \<lparr>status = 403, payload = []\<rparr>))) = 1
   \<and> attempts 0 (fetchWithAuth_run
       [Call ''a'' None, Settles 0 (Inr \<lparr>status = 401, payload = []\<rparr>),
        Token (FunResolves 0 ''tok''), Settles 0 (Inr \<lparr>status = 403, payload = []\<rparr>)]
       fetchWithAuth) \<le> 2"
proof -
  let ?s = "fetchWithAuth_run
       [Call ''a'' None, Settles 0 (Inr \<lparr>status = 401, payload = []\<rparr>),
        Token (FunResolves 0 ''tok'')] fetchWithAuth"
  have h: "0 \<notin> set (first_attempt ?s) \<and> 0 \<in> set (second_attempt ?s)"
    "settled ?s = []" "started ?s = 1"
    by (simp_all add: auth_eval)
  from fetchWithAuth_at_most_two_attempts[of 0 ?s "Inr \<lparr>status = 403, payload = []\<rparr>"] h
  show ?thesis by simp
qed

end
